theory Spec2Isabelle
  imports
    Main
    "HOL-Library.Word"
    "HOL-Library.Monad_Syntax"
    "HOL-Library.Sublist"
    "HOL-Library.Char_ord"
    "HOL-Library.List_Lexorder"
begin


section \<open>The value model of main.cpp\<close>

text \<open>
  A \<open>Value\<close> is the struct of main.cpp: a type tag, a 64-bit integer field and a list
  pointer. A \<open>ListPtr\<close> is a \<open>shared_ptr<ListNode>\<close>: \<open>None\<close> is \<open>nullptr\<close>, \<open>Some a\<close>
  points to the node at address \<open>a\<close>. The nodes live in an explicit heap, a list of
  cells indexed by address; \<open>make_shared\<close> appends a cell. Reference counts and the
  release of unreachable nodes are not modelled: a cell, once allocated, stays.
  \<open>long long\<close> is a 64-bit word, so that \<open>+\<close> and unary minus wrap around: the
  two's complement behaviour of the usual hosts (the language standard leaves signed
  overflow undefined).
\<close>

datatype ValueType = VT_INT | VT_LIST

type_synonym addr = nat

type_synonym ListPtr = "addr option"

record Value =
  type :: ValueType
  ival :: "64 word"
  list :: ListPtr

record ListNode =
  node_v :: Value
  node_next :: ListPtr

type_synonym Heap = "ListNode list"

definition make_int :: "64 word \<Rightarrow> Value" where
  "make_int x = \<lparr>type = VT_INT, ival = x, list = None\<rparr>"

definition make_list :: "ListPtr \<Rightarrow> Value" where
  "make_list l = \<lparr>type = VT_LIST, ival = 0, list = l\<rparr>"

text \<open>Reading through a pointer; \<open>None\<close> for an address that was never allocated.\<close>

definition deref :: "Heap \<Rightarrow> addr \<Rightarrow> ListNode option" where
  "deref h a = (if a < length h then Some (h ! a) else None)"

definition make_shared :: "Value \<Rightarrow> ListPtr \<Rightarrow> Heap \<Rightarrow> addr \<times> Heap" where
  "make_shared val nx h = (length h, h @ [\<lparr>node_v = val, node_next = nx\<rparr>])"

text \<open>
  The assignment \<open>*pp = q\<close> of the copy loops. \<open>pp\<close> points either to the local variable
  that holds the head of the new chain (\<open>None\<close>) or to the \<open>next\<close> field of the node at
  address \<open>p\<close> (\<open>Some p\<close>). The result is the head variable and the heap after the store.
\<close>

definition store_ptr :: "addr option \<Rightarrow> ListPtr \<Rightarrow> ListPtr \<Rightarrow> Heap \<Rightarrow> ListPtr \<times> Heap" where
  "store_ptr pp q head h =
     (case pp of
        None \<Rightarrow> (q, h)
      | Some p \<Rightarrow> (head, h[p := (h ! p)\<lparr>node_next := q\<rparr>]))"

text \<open>
  \<open>Value::deep_copy\<close>. The method and its while loop call each other, so both are one
  recursive function over a frame: \<open>Copy val\<close> is a call of the method on \<open>val\<close>,
  \<open>Loop head pp curSrc\<close> is the loop at its test, with the loop's three variables, and
  runs on to the method's final \<open>return Value::make_list(head)\<close>. The result is \<open>None\<close>
  when the recursion does not end or a pointer dangles.

  The loop body first builds \<open>vcopy\<close> by the conditional expression of the source, which
  for a list element copies the first element of the nested list, and then, for a list
  element, overwrites it with the element's own deep copy; both copies allocate.
\<close>

datatype dc_frame = Copy Value | Loop ListPtr "addr option" ListPtr

partial_function (option) deep_copy_rec :: "dc_frame \<Rightarrow> Heap \<Rightarrow> (Value \<times> Heap) option" where
  "deep_copy_rec fr h =
     (case fr of
        Copy val \<Rightarrow>
          if type val = VT_INT then Some (make_int (ival val), h)
          else if list val = None then Some (make_list None, h)
          else deep_copy_rec (Loop None None (list val)) h
      | Loop head pp curSrc \<Rightarrow>
          (case curSrc of
             None \<Rightarrow> Some (make_list head, h)
           | Some c \<Rightarrow>
               do {
                 n \<leftarrow> deref h c;
                 (vcopy0, h1) \<leftarrow>
                   (if type (node_v n) = VT_INT then Some (make_int (ival (node_v n)), h)
                    else (case list (node_v n) of
                            None \<Rightarrow> Some (make_list None, h)
                          | Some e \<Rightarrow>
                              do {
                                en \<leftarrow> deref h e;
                                (tmp, h') \<leftarrow> deep_copy_rec (Copy (node_v en)) h;
                                Some (make_list (list tmp), h')
                              }));
                 (vcopy, h2) \<leftarrow>
                   (if type (node_v n) = VT_LIST then deep_copy_rec (Copy (node_v n)) h1
                    else Some (vcopy0, h1));
                 (a, h3) \<leftarrow> Some (make_shared vcopy None h2);
                 (head', h4) \<leftarrow> Some (store_ptr pp (Some a) head h3);
                 deep_copy_rec (Loop head' (Some a) (node_next n)) h4
               }))"

declare deep_copy_rec.simps [code]

definition deep_copy :: "Value \<Rightarrow> Heap \<Rightarrow> (Value \<times> Heap) option" where
  "deep_copy val h = deep_copy_rec (Copy val) h"

text \<open>The part of the loop body after \<open>vcopy\<close> is known: allocate, link, continue.\<close>

definition loop_rest :: "ListPtr \<Rightarrow> addr option \<Rightarrow> ListNode \<Rightarrow> Value \<Rightarrow> Heap \<Rightarrow> (Value \<times> Heap) option" where
  "loop_rest head pp n vcopy h2 =
     (case store_ptr pp (Some (length h2)) head (h2 @ [\<lparr>node_v = vcopy, node_next = None\<rparr>]) of
        (head', h4) \<Rightarrow> deep_copy_rec (Loop head' (Some (length h2)) (node_next n)) h4)"

subsection \<open>What a value stands for\<close>

text \<open>
  The mathematical value a \<open>Value\<close> denotes in a heap: an integer or a finite list of
  values. \<open>vrepr lo h val x\<close> says that \<open>val\<close> denotes \<open>x\<close> in \<open>h\<close> and that every node
  visited on the way has an address of at least \<open>lo\<close>; with \<open>lo = 0\<close> it is plain
  denotation, with \<open>lo = length h0\<close> it says in addition that no node of the older heap
  \<open>h0\<close> is part of the structure.
\<close>

datatype aval = AInt "64 word" | AList "aval list"

fun vrepr :: "nat \<Rightarrow> Heap \<Rightarrow> Value \<Rightarrow> aval \<Rightarrow> bool"
  and lrepr :: "nat \<Rightarrow> Heap \<Rightarrow> ListPtr \<Rightarrow> aval list \<Rightarrow> bool" where
  "vrepr lo h val (AInt i) = (type val = VT_INT \<and> ival val = i)"
| "vrepr lo h val (AList xs) = (type val = VT_LIST \<and> lrepr lo h (list val) xs)"
| "lrepr lo h p [] = (p = None)"
| "lrepr lo h p (x # xs) =
     (case p of
        None \<Rightarrow> False
      | Some a \<Rightarrow> lo \<le> a \<and> a < length h \<and> vrepr lo h (node_v (h ! a)) x
                  \<and> lrepr lo h (node_next (h ! a)) xs)"

subsection \<open>Rendering\<close>

text \<open>
  \<open>std::to_string\<close> on an integer and \<open>operator<<\<close> on a \<open>long long\<close>: the decimal
  digits, with a leading minus sign for a negative number. The argument is the
  mathematical value (\<open>sint\<close> of the word for a \<open>long long\<close>).
\<close>

definition digit_char :: "nat \<Rightarrow> char" where
  "digit_char d = ''0123456789'' ! d"

fun digits10 :: "nat \<Rightarrow> string" where
  "digits10 n = (if n < 10 then [digit_char n] else digits10 (n div 10) @ [digit_char (n mod 10)])"

declare digits10.simps [simp del]

definition to_string :: "int \<Rightarrow> string" where
  "to_string i = (if i < 0 then CHR ''-'' # digits10 (nat (- i)) else digits10 (nat i))"

text \<open>
  \<open>list_to_string\<close> and \<open>value_to_string\<close>, again one recursive function over a frame:
  \<open>ListToString head\<close> and \<open>ValueToString val\<close> are calls, \<open>ListLoop s first cur\<close> is the
  while loop of \<open>list_to_string\<close> at its test and runs on to the closing bracket.
\<close>

datatype ts_frame = ListToString ListPtr | ListLoop string bool ListPtr | ValueToString Value

partial_function (option) to_string_rec :: "ts_frame \<Rightarrow> Heap \<Rightarrow> string option" where
  "to_string_rec fr h =
     (case fr of
        ListToString head \<Rightarrow>
          (case head of
             None \<Rightarrow> Some ''[]''
           | Some _ \<Rightarrow> to_string_rec (ListLoop ''['' True head) h)
      | ListLoop s first cur \<Rightarrow>
          (case cur of
             None \<Rightarrow> Some (s @ '']'')
           | Some c \<Rightarrow>
               do {
                 n \<leftarrow> deref h c;
                 e \<leftarrow> to_string_rec (ValueToString (node_v n)) h;
                 to_string_rec (ListLoop ((if \<not> first then s @ '', '' else s) @ e) False (node_next n)) h
               })
      | ValueToString val \<Rightarrow>
          if type val = VT_INT then Some (to_string (sint (ival val)))
          else to_string_rec (ListToString (list val)) h)"

declare to_string_rec.simps [code]

definition list_to_string :: "ListPtr \<Rightarrow> Heap \<Rightarrow> string option" where
  "list_to_string head h = to_string_rec (ListToString head) h"

definition value_to_string :: "Value \<Rightarrow> Heap \<Rightarrow> string option" where
  "value_to_string val h = to_string_rec (ValueToString val) h"

text \<open>
  The rendering the specification describes, on mathematical values: an integer is its
  decimal text, a list is its elements' renderings, comma-space separated, in brackets.
\<close>

fun join :: "string \<Rightarrow> string list \<Rightarrow> string" where
  "join sep [] = []"
| "join sep [x] = x"
| "join sep (x # y # ys) = x @ sep @ join sep (y # ys)"

fun render :: "aval \<Rightarrow> string" where
  "render (AInt i) = to_string (sint i)"
| "render (AList xs) = ''['' @ join '', '' (map render xs) @ '']''"

section \<open>The environment\<close>

text \<open>
  \<open>Env::table\<close> is a \<open>std::map<string, Value>\<close>: an association list kept in ascending
  order of its keys, with at most one entry per key. \<open>Env_set\<close> is \<open>table[id] = v\<close>. The
  instructions that write through a reference returned by \<open>Env::get\<close> store the changed
  value back with \<open>Env_set\<close>.

  An exception is a \<open>runtime_error\<close> with its message \<open>what\<close>. The field \<open>kind\<close> is not
  in the source: it names, per throw site, the failure as the specification calls it.
\<close>

datatype error_kind =
    ParseError | FileError | AlreadyDeclared | Undefined | NotAList | EmptyList | TypeMismatch | JumpOutOfRange

datatype runtime_error = RuntimeError (kind: error_kind) (what: string)

record Env =
  table :: "(string \<times> Value) list"

text \<open>\<open>table.find(id)\<close>, and the identifiers the table holds.\<close>

definition lookup :: "Env \<Rightarrow> string \<Rightarrow> Value option" where
  "lookup env ident = map_of (table env) ident"

definition declared :: "Env \<Rightarrow> string set" where
  "declared env = fst ` set (table env)"

definition Env_exists :: "Env \<Rightarrow> string \<Rightarrow> bool" where
  "Env_exists env ident = (lookup env ident \<noteq> None)"

definition Env_get_const :: "Env \<Rightarrow> string \<Rightarrow> runtime_error + Value" where
  "Env_get_const env ident =
     (case lookup env ident of
        None \<Rightarrow> Inl (RuntimeError Undefined (''Undefined identifier: '' @ ident))
      | Some v \<Rightarrow> Inr v)"

definition Env_get :: "Env \<Rightarrow> string \<Rightarrow> runtime_error + Value" where
  "Env_get env ident = Env_get_const env ident"

fun table_set :: "string \<Rightarrow> Value \<Rightarrow> (string \<times> Value) list \<Rightarrow> (string \<times> Value) list" where
  "table_set k v [] = [(k, v)]"
| "table_set k v ((k', v') # rest) =
     (if k = k' then (k, v) # rest
      else if k < k' then (k, v) # (k', v') # rest
      else (k', v') # table_set k v rest)"

definition Env_set :: "Env \<Rightarrow> string \<Rightarrow> Value \<Rightarrow> Env" where
  "Env_set env ident v = env\<lparr>table := table_set ident v (table env)\<rparr>"

section \<open>The instructions\<close>

text \<open>
  One constructor per subclass of \<open>Instruction\<close>, with the line number first and then the
  fields of the subclass in the order of its constructor. \<open>NOP\<close> is the local class of
  \<open>load_program\<close>. \<open>int\<close> values (line numbers, the program counter, the target of \<open>IF\<close>)
  are mathematical integers.
\<close>

datatype Instruction =
    Instr_INTEGER int string
  | Instr_LIST int string
  | Instr_MERGE int string string
  | Instr_COPY int string string
  | Instr_HEAD int string string
  | Instr_TAIL int string string
  | Instr_ASSIGN int string "64 word"
  | Instr_CHS int string
  | Instr_ADD int string string
  | Instr_IF int string int
  | Instr_HLT int
  | NOP int

fun lineNo :: "Instruction \<Rightarrow> int" where
  "lineNo (Instr_INTEGER l _) = l"
| "lineNo (Instr_LIST l _) = l"
| "lineNo (Instr_MERGE l _ _) = l"
| "lineNo (Instr_COPY l _ _) = l"
| "lineNo (Instr_HEAD l _ _) = l"
| "lineNo (Instr_TAIL l _ _) = l"
| "lineNo (Instr_ASSIGN l _ _) = l"
| "lineNo (Instr_CHS l _) = l"
| "lineNo (Instr_ADD l _ _) = l"
| "lineNo (Instr_IF l _ _) = l"
| "lineNo (Instr_HLT l) = l"
| "lineNo (NOP l) = l"

text \<open>The prefix \<open>"Line " + to_string(lineNo) + ": "\<close> of every message of \<open>execute\<close>.\<close>

definition at_line :: "int \<Rightarrow> string \<Rightarrow> string" where
  "at_line l msg = ''Line '' @ to_string l @ '': '' @ msg"

text \<open>
  The while loop of \<open>Instr_TAIL::execute\<close>, at its test, with its variables \<open>newHead\<close>,
  \<open>pp\<close> and \<open>cur\<close>; the result is \<open>newHead\<close> at the end of the loop.
\<close>

partial_function (option) tail_loop :: "ListPtr \<Rightarrow> addr option \<Rightarrow> ListPtr \<Rightarrow> Heap \<Rightarrow> (ListPtr \<times> Heap) option" where
  "tail_loop newHead pp cur h =
     (case cur of
        None \<Rightarrow> Some (newHead, h)
      | Some c \<Rightarrow>
          do {
            n \<leftarrow> deref h c;
            (vcopy, h1) \<leftarrow> deep_copy (node_v n) h;
            (a, h2) \<leftarrow> Some (make_shared vcopy None h1);
            (newHead', h3) \<leftarrow> Some (store_ptr pp (Some a) newHead h2);
            tail_loop newHead' (Some a) (node_next n) h3
          })"

declare tail_loop.simps [code]

text \<open>
  \<open>execute\<close>. The result is \<open>None\<close> when a copy does not return; otherwise it is the
  environment and the heap as the call leaves them, with \<open>Inr next\<close> for the returned
  line number (\<open>-1\<close> for \<open>HLT\<close>) or \<open>Inl e\<close> for the exception thrown.
\<close>

type_synonym exec_result = "((runtime_error + int) \<times> Env \<times> Heap) option"

definition throw :: "error_kind \<Rightarrow> string \<Rightarrow> Env \<Rightarrow> Heap \<Rightarrow> exec_result" where
  "throw k msg env h = Some (Inl (RuntimeError k msg), env, h)"

definition rethrow :: "runtime_error \<Rightarrow> Env \<Rightarrow> Heap \<Rightarrow> exec_result" where
  "rethrow e env h = Some (Inl e, env, h)"

definition goto :: "int \<Rightarrow> Env \<Rightarrow> Heap \<Rightarrow> exec_result" where
  "goto next env h = Some (Inr next, env, h)"

fun execute :: "Instruction \<Rightarrow> Env \<Rightarrow> int \<Rightarrow> Instruction list \<Rightarrow> Heap \<Rightarrow> exec_result" where
  "execute (Instr_INTEGER l ident) env pc program h =
     (if Env_exists env ident
      then throw AlreadyDeclared (at_line l (''Identifier already declared: '' @ ident)) env h
      else goto (pc + 1) (Env_set env ident (make_int 0)) h)"
| "execute (Instr_LIST l ident) env pc program h =
     (if Env_exists env ident
      then throw AlreadyDeclared (at_line l (''Identifier already declared: '' @ ident)) env h
      else goto (pc + 1) (Env_set env ident (make_list None)) h)"
| "execute (Instr_MERGE l from tolist) env pc program h =
     (if \<not> Env_exists env from
      then throw Undefined (at_line l (''Undefined identifier: '' @ from)) env h
      else if \<not> Env_exists env tolist
      then throw Undefined (at_line l (''Undefined list identifier: '' @ tolist)) env h
      else (case Env_get_const env from of
              Inl e \<Rightarrow> rethrow e env h
            | Inr fv \<Rightarrow>
                (case deep_copy fv h of
                   None \<Rightarrow> None
                 | Some (vfrom, h1) \<Rightarrow>
                     (case Env_get_const env tolist of
                        Inl e \<Rightarrow> rethrow e env h1
                      | Inr target \<Rightarrow>
                          if type target \<noteq> VT_LIST
                          then throw NotAList (at_line l (''MERGE target is not a list: '' @ tolist)) env h1
                          else (case make_shared vfrom (list target) h1 of
                                  (newhead, h2) \<Rightarrow>
                                    goto (pc + 1) (Env_set env tolist (make_list (Some newhead))) h2)))))"
| "execute (Instr_COPY l src dst) env pc program h =
     (if \<not> Env_exists env src
      then throw Undefined (at_line l (''Undefined source: '' @ src)) env h
      else (case Env_get_const env src of
              Inl e \<Rightarrow> rethrow e env h
            | Inr v \<Rightarrow>
                if type v \<noteq> VT_LIST
                then throw NotAList (at_line l (''COPY source is not a list: '' @ src)) env h
                else (case deep_copy v h of
                        None \<Rightarrow> None
                      | Some (copy, h1) \<Rightarrow> goto (pc + 1) (Env_set env dst copy) h1)))"
| "execute (Instr_HEAD l listid ident) env pc program h =
     (if \<not> Env_exists env listid
      then throw Undefined (at_line l (''Undefined list: '' @ listid)) env h
      else (case Env_get_const env listid of
              Inl e \<Rightarrow> rethrow e env h
            | Inr lv \<Rightarrow>
                if type lv \<noteq> VT_LIST
                then throw NotAList (at_line l (''HEAD target not a list: '' @ listid)) env h
                else (case list lv of
                        None \<Rightarrow> throw EmptyList (at_line l (''HEAD on empty list: '' @ listid)) env h
                      | Some a \<Rightarrow>
                          (case deref h a of
                             None \<Rightarrow> None
                           | Some n \<Rightarrow>
                               (case deep_copy (node_v n) h of
                                  None \<Rightarrow> None
                                | Some (headval, h1) \<Rightarrow>
                                    goto (pc + 1) (Env_set env ident headval) h1)))))"
| "execute (Instr_TAIL l src dst) env pc program h =
     (if \<not> Env_exists env src
      then throw Undefined (at_line l (''Undefined list: '' @ src)) env h
      else (case Env_get_const env src of
              Inl e \<Rightarrow> rethrow e env h
            | Inr sv \<Rightarrow>
                if type sv \<noteq> VT_LIST
                then throw NotAList (at_line l (''TAIL source not a list: '' @ src)) env h
                else (case list sv of
                        None \<Rightarrow> goto (pc + 1) (Env_set env dst (make_list None)) h
                      | Some a \<Rightarrow>
                          (case deref h a of
                             None \<Rightarrow> None
                           | Some n \<Rightarrow>
                               (case tail_loop None None (node_next n) h of
                                  None \<Rightarrow> None
                                | Some (newHead, h1) \<Rightarrow>
                                    goto (pc + 1) (Env_set env dst (make_list newHead)) h1)))))"
| "execute (Instr_ASSIGN l ident val) env pc program h =
     (if Env_exists env ident
      then (case Env_get env ident of
              Inl e \<Rightarrow> rethrow e env h
            | Inr existing \<Rightarrow>
                if type existing \<noteq> VT_INT
                then throw TypeMismatch (at_line l (''ASSIGN to non-int: '' @ ident)) env h
                else goto (pc + 1) (Env_set env ident (existing\<lparr>ival := val\<rparr>)) h)
      else goto (pc + 1) (Env_set env ident (make_int val)) h)"
| "execute (Instr_CHS l ident) env pc program h =
     (if \<not> Env_exists env ident
      then throw Undefined (at_line l (''CHS undefined id: '' @ ident)) env h
      else (case Env_get env ident of
              Inl e \<Rightarrow> rethrow e env h
            | Inr v \<Rightarrow>
                if type v \<noteq> VT_INT
                then throw TypeMismatch (at_line l (''CHS on non-int: '' @ ident)) env h
                else goto (pc + 1) (Env_set env ident (v\<lparr>ival := - ival v\<rparr>)) h))"
| "execute (Instr_ADD l a b) env pc program h =
     (if \<not> Env_exists env a
      then throw Undefined (at_line l (''ADD undefined id: '' @ a)) env h
      else if \<not> Env_exists env b
      then throw Undefined (at_line l (''ADD undefined id: '' @ b)) env h
      else (case Env_get env a of
              Inl e \<Rightarrow> rethrow e env h
            | Inr va \<Rightarrow>
                (case Env_get env b of
                   Inl e \<Rightarrow> rethrow e env h
                 | Inr vb \<Rightarrow>
                     if type va \<noteq> VT_INT \<or> type vb \<noteq> VT_INT
                     then throw TypeMismatch (at_line l ''ADD type error'') env h
                     else goto (pc + 1) (Env_set env a (va\<lparr>ival := ival va + ival vb\<rparr>)) h)))"
| "execute (Instr_IF l ident target) env pc program h =
     (if \<not> Env_exists env ident
      then throw Undefined (at_line l (''IF undefined id: '' @ ident)) env h
      else (case Env_get_const env ident of
              Inl e \<Rightarrow> rethrow e env h
            | Inr v \<Rightarrow>
                (let cond = (if type v = VT_INT then ival v = 0 else list v = None)
                 in if cond
                    then (if target < 1 \<or> target > int (length program)
                          then throw JumpOutOfRange (at_line l (''IF jump out of range: '' @ to_string target)) env h
                          else goto target env h)
                    else goto (pc + 1) env h)))"
| "execute (Instr_HLT l) env pc program h = goto (- 1) env h"
| "execute (NOP l) env pc program h = goto (pc + 1) env h"

section \<open>The driver\<close>

text \<open>
  The while loop of \<open>run_program\<close>, at its test. It ends with \<open>Some e\<close> when an
  instruction throws (the catch clause then returns from \<open>run_program\<close>), and with \<open>None\<close>
  for the exception when the loop is left by \<open>break\<close> or by its test. A program that
  runs forever has no result.
\<close>

partial_function (option) run_loop :: "Instruction list \<Rightarrow> int \<Rightarrow> Env \<Rightarrow> Heap \<Rightarrow> (runtime_error option \<times> Env \<times> Heap) option" where
  "run_loop prog pc env h =
     (if pc \<ge> 1
      then (if pc > int (length prog) then Some (None, env, h)
            else do {
              (r, env', h') \<leftarrow> execute (prog ! nat (pc - 1)) env pc prog h;
              (case r of
                 Inl e \<Rightarrow> Some (Some e, env', h')
               | Inr next \<Rightarrow>
                   if next = - 1 then Some (None, env', h')
                   else run_loop prog next env' h')
            })
      else Some (None, env, h))"

declare run_loop.simps [code]

definition newline :: string where
  "newline = [CHR 0x0A]"

record Streams =
  cout :: string
  cerr :: string

text \<open>
  The loop that prints the report, with the text written to \<open>cout\<close> so far. An exception
  of \<open>get_const\<close> would leave \<open>run_program\<close> uncaught: \<open>Some (Some e, text)\<close>.
\<close>

fun print_names :: "string list \<Rightarrow> Env \<Rightarrow> Heap \<Rightarrow> string \<Rightarrow> (runtime_error option \<times> string) option" where
  "print_names [] env h acc = Some (None, acc)"
| "print_names (n # ns) env h acc =
     (case Env_get_const env n of
        Inl e \<Rightarrow> Some (Some e, acc @ n @ '' = '')
      | Inr v \<Rightarrow>
          if type v = VT_INT
          then print_names ns env h (acc @ n @ '' = '' @ to_string (sint (ival v)) @ newline)
          else (case list_to_string (list v) h of
                  None \<Rightarrow> None
                | Some s \<Rightarrow> print_names ns env h (acc @ n @ '' = '' @ s @ newline)))"

text \<open>
  \<open>run_program\<close>: what was written to the two streams, the environment and the heap at
  the end, and the exception that left the function uncaught, if any.
\<close>

definition run_program :: "Instruction list \<Rightarrow> Env \<Rightarrow> Heap \<Rightarrow> (runtime_error option \<times> Streams \<times> Env \<times> Heap) option" where
  "run_program prog env h =
     (case run_loop prog 1 env h of
        None \<Rightarrow> None
      | Some (Some e, env', h') \<Rightarrow>
          Some (None, \<lparr>cout = [], cerr = ''Runtime error: '' @ what e @ newline\<rparr>, env', h')
      | Some (None, env', h') \<Rightarrow>
          (case print_names (sort (map fst (table env'))) env' h' [] of
             None \<Rightarrow> None
           | Some (uncaught, text) \<Rightarrow> Some (uncaught, \<lparr>cout = text, cerr = []\<rparr>, env', h')))"

text \<open>
  The configuration at the loop's test after \<open>k\<close> further iterations that each executed
  an instruction and went on; \<open>None\<close> when the loop ended before.
\<close>

fun run_n :: "nat \<Rightarrow> Instruction list \<Rightarrow> int \<times> Env \<times> Heap \<Rightarrow> (int \<times> Env \<times> Heap) option" where
  "run_n 0 prog c = Some c"
| "run_n (Suc k) prog (pc, env, h) =
     (if 1 \<le> pc \<and> pc \<le> int (length prog)
      then (case execute (prog ! nat (pc - 1)) env pc prog h of
              Some (Inr next, env', h') \<Rightarrow> if next = - 1 then None else run_n k prog (next, env', h')
            | _ \<Rightarrow> None)
      else None)"

section \<open>The parser and the loader\<close>

text \<open>The character classes of the C locale.\<close>

definition isspace :: "char \<Rightarrow> bool" where
  "isspace c = (c \<in> set [CHR '' '', CHR 0x09, CHR 0x0A, CHR 0x0B, CHR 0x0C, CHR 0x0D])"

definition isdigit :: "char \<Rightarrow> bool" where
  "isdigit c = (48 \<le> (of_char c :: nat) \<and> (of_char c :: nat) \<le> 57)"

definition isalpha :: "char \<Rightarrow> bool" where
  "isalpha c = ((65 \<le> (of_char c :: nat) \<and> (of_char c :: nat) \<le> 90)
               \<or> (97 \<le> (of_char c :: nat) \<and> (of_char c :: nat) \<le> 122))"

definition isalnum :: "char \<Rightarrow> bool" where
  "isalnum c = (isalpha c \<or> isdigit c)"

text \<open>\<open>tokenize\<close>: the words \<open>iss >> w\<close> extracts, with the word read so far.\<close>

fun tokenize_from :: "string \<Rightarrow> string \<Rightarrow> string list" where
  "tokenize_from w [] = (if w = [] then [] else [w])"
| "tokenize_from w (c # cs) =
     (if isspace c then (if w = [] then tokenize_from [] cs else w # tokenize_from [] cs)
      else tokenize_from (w @ [c]) cs)"

definition tokenize :: "string \<Rightarrow> string list" where
  "tokenize line = tokenize_from [] line"

text \<open>
  \<open>std::stoll(s, &idx, 10)\<close>: leading white space, an optional sign, decimal digits.
  \<open>None\<close> stands for its two exceptions (no digit, or a value outside \<open>long long\<close>);
  otherwise the value and the number of characters consumed.
\<close>

definition stoll :: "string \<Rightarrow> (int \<times> nat) option" where
  "stoll s =
     (let s1 = dropWhile isspace s;
          neg = (s1 \<noteq> [] \<and> hd s1 = CHR ''-'');
          s2 = (if s1 \<noteq> [] \<and> (hd s1 = CHR ''-'' \<or> hd s1 = CHR ''+'') then tl s1 else s1);
          ds = takeWhile isdigit s2;
          m = foldl (\<lambda>acc c. 10 * acc + (int (of_char c) - 48)) 0 ds;
          v = (if neg then - m else m)
      in if ds = [] then None
         else if v < - (2 ^ 63) \<or> 2 ^ 63 - 1 < v then None
         else Some (v, length s - length s2 + length ds))"

definition to_int_const :: "string \<Rightarrow> 64 word \<times> bool" where
  "to_int_const s =
     (case stoll s of
        None \<Rightarrow> (0, False)
      | Some (v, idx) \<Rightarrow> (word_of_int v, idx = length s))"

definition is_identifier :: "string \<Rightarrow> bool" where
  "is_identifier s =
     (if s = [] then False
      else if \<not> isalpha (hd s) \<and> hd s \<noteq> CHR ''_'' then False
      else if list_ex (\<lambda>c. \<not> isalnum c \<and> c \<noteq> CHR ''_'') s then False
      else True)"

definition parse_fail :: "int \<Rightarrow> string \<Rightarrow> runtime_error + Instruction option" where
  "parse_fail lineno msg = Inl (RuntimeError ParseError (at_line lineno msg))"

text \<open>\<open>parse_line\<close>; \<open>Inr None\<close> is the \<open>nullptr\<close> returned for a line without a token.\<close>

definition parse_line :: "string \<Rightarrow> int \<Rightarrow> runtime_error + Instruction option" where
  "parse_line line lineno =
     (let t = tokenize line in
      if t = [] then Inr None
      else let op = t ! 0 in
        if op = ''INTEGER'' then
          (if length t \<noteq> 2 then parse_fail lineno ''INTEGER requires exactly one argument''
           else if \<not> is_identifier (t ! 1) then parse_fail lineno (''invalid identifier: '' @ t ! 1)
           else Inr (Some (Instr_INTEGER lineno (t ! 1))))
        else if op = ''LIST'' then
          (if length t \<noteq> 2 then parse_fail lineno ''LIST requires exactly one argument''
           else if \<not> is_identifier (t ! 1) then parse_fail lineno (''invalid identifier: '' @ t ! 1)
           else Inr (Some (Instr_LIST lineno (t ! 1))))
        else if op = ''MERGE'' then
          (if length t \<noteq> 3 then parse_fail lineno ''MERGE requires two arguments''
           else Inr (Some (Instr_MERGE lineno (t ! 1) (t ! 2))))
        else if op = ''COPY'' then
          (if length t \<noteq> 3 then parse_fail lineno ''COPY requires two arguments''
           else Inr (Some (Instr_COPY lineno (t ! 1) (t ! 2))))
        else if op = ''HEAD'' then
          (if length t \<noteq> 3 then parse_fail lineno ''HEAD requires two arguments''
           else Inr (Some (Instr_HEAD lineno (t ! 1) (t ! 2))))
        else if op = ''TAIL'' then
          (if length t \<noteq> 3 then parse_fail lineno ''TAIL requires two arguments''
           else Inr (Some (Instr_TAIL lineno (t ! 1) (t ! 2))))
        else if op = ''ASSIGN'' then
          (if length t \<noteq> 3 then parse_fail lineno ''ASSIGN requires two arguments''
           else (case to_int_const (t ! 2) of
                   (v, ok) \<Rightarrow>
                     if \<not> ok then parse_fail lineno (''ASSIGN needs integer constant, got: '' @ t ! 2)
                     else Inr (Some (Instr_ASSIGN lineno (t ! 1) v))))
        else if op = ''CHS'' then
          (if length t \<noteq> 2 then parse_fail lineno ''CHS requires one argument''
           else Inr (Some (Instr_CHS lineno (t ! 1))))
        else if op = ''ADD'' then
          (if length t \<noteq> 3 then parse_fail lineno ''ADD requires two arguments''
           else Inr (Some (Instr_ADD lineno (t ! 1) (t ! 2))))
        else if op = ''IF'' then
          (if length t \<noteq> 3 then parse_fail lineno ''IF requires two arguments''
           else (case to_int_const (t ! 2) of
                   (v, ok) \<Rightarrow>
                     (let target = sint (ucast v :: 32 word) in
                      if \<not> ok \<or> target \<le> 0 then parse_fail lineno ''IF target must be positive integer''
                      else Inr (Some (Instr_IF lineno (t ! 1) target)))))
        else if op = ''HLT'' then
          (if length t \<noteq> 1 then parse_fail lineno ''HLT takes no arguments''
           else Inr (Some (Instr_HLT lineno)))
        else parse_fail lineno (''Unknown operation: '' @ op))"

text \<open>The lines \<open>std::getline\<close> delivers from a text, with the line read so far.\<close>

fun getlines_from :: "string \<Rightarrow> string \<Rightarrow> string list" where
  "getlines_from cur [] = (if cur = [] then [] else [cur])"
| "getlines_from cur (c # cs) =
     (if c = CHR 0x0A then cur # getlines_from [] cs else getlines_from (cur @ [c]) cs)"

definition find_first_not_of :: "string \<Rightarrow> string \<Rightarrow> nat option" where
  "find_first_not_of s cs =
     (case filter (\<lambda>i. s ! i \<notin> set cs) [0..<length s] of [] \<Rightarrow> None | i # _ \<Rightarrow> Some i)"

definition find_last_not_of :: "string \<Rightarrow> string \<Rightarrow> nat option" where
  "find_last_not_of s cs =
     (case rev (filter (\<lambda>i. s ! i \<notin> set cs) [0..<length s]) of [] \<Rightarrow> None | i # _ \<Rightarrow> Some i)"

definition substr :: "string \<Rightarrow> nat \<Rightarrow> nat \<Rightarrow> string" where
  "substr s pos n = take n (drop pos s)"

definition blanks :: string where
  "blanks = [CHR '' '', CHR 0x09, CHR 0x0D, CHR 0x0A]"

text \<open>
  The reading loop of \<open>load_program\<close> over the remaining lines, with \<open>lineno\<close> and the
  vector \<open>prog\<close> built so far. The first exception of \<open>parse_line\<close> leaves the function
  and the vector is lost.
\<close>

fun load_lines :: "string list \<Rightarrow> int \<Rightarrow> Instruction option list \<Rightarrow> runtime_error + Instruction option list" where
  "load_lines [] lineno prog = Inr prog"
| "load_lines (line # rest) lineno prog =
     (case find_first_not_of line blanks of
        None \<Rightarrow> load_lines rest (lineno + 1) (prog @ [None])
      | Some start \<Rightarrow>
          (case find_last_not_of line blanks of
             None \<Rightarrow> load_lines rest (lineno + 1) (prog @ [None])
           | Some end' \<Rightarrow>
               (case parse_line (substr line start (end' - start + 1)) (lineno + 1) of
                  Inl e \<Rightarrow> Inl e
                | Inr ins \<Rightarrow> load_lines rest (lineno + 1) (prog @ [ins]))))"

text \<open>The second loop of \<open>load_program\<close>: a \<open>NOP\<close> for every \<open>nullptr\<close>.\<close>

definition fill_nops :: "Instruction option list \<Rightarrow> Instruction list" where
  "fill_nops prog =
     map (\<lambda>i. case prog ! i of None \<Rightarrow> NOP (int i + 1) | Some ins \<Rightarrow> ins) [0..<length prog]"

text \<open>
  \<open>load_program\<close>, on a file system that maps a file name to the text of the file, or to
  \<open>None\<close> when the file cannot be opened.
\<close>

definition load_program :: "(string \<Rightarrow> string option) \<Rightarrow> string \<Rightarrow> runtime_error + Instruction list" where
  "load_program fs filename =
     (case fs filename of
        None \<Rightarrow> Inl (RuntimeError FileError (''Unable to open file: '' @ filename))
      | Some text \<Rightarrow>
          (case load_lines (getlines_from [] text) 0 [] of
             Inl e \<Rightarrow> Inl e
           | Inr prog \<Rightarrow> Inr (fill_nops prog)))"

section \<open>The command line\<close>

text \<open>
  \<open>main\<close> on the argument vector (\<open>argc\<close> is its length) and the file system. The
  process ends with an exit code, or by an exception nobody catches.
\<close>

datatype proc_exit = Exit int | Uncaught runtime_error

definition main :: "string list \<Rightarrow> (string \<Rightarrow> string option) \<Rightarrow> (proc_exit \<times> Streams) option" where
  "main argv fs =
     (if length argv \<noteq> 2
      then Some (Exit 1, \<lparr>cout = [], cerr = ''Usage: ppl <program-file>'' @ newline\<rparr>)
      else (case load_program fs (argv ! 1) of
              Inl e \<Rightarrow> Some (Exit 1, \<lparr>cout = [], cerr = ''Error loading program: '' @ what e @ newline\<rparr>)
            | Inr prog \<Rightarrow>
                (case run_program prog \<lparr>table = []\<rparr> [] of
                   None \<Rightarrow> None
                 | Some (Some e, io, env, h) \<Rightarrow> Some (Uncaught e, io)
                 | Some (None, io, env, h) \<Rightarrow> Some (Exit 0, io))))"

section \<open>Auxiliary notions for the copy loops\<close>

text \<open>
  The two copy loops (in \<open>deep_copy\<close> and in \<open>TAIL\<close>) build a chain front to back through
  \<open>pp\<close>. \<open>pp_ok h0 h pp\<close>: the slot \<open>pp\<close> points to is the head variable or the still
  empty \<open>next\<close> field of a node allocated after the heap \<open>h0\<close>. \<open>built h pp h' q xs\<close>: from
  the heap \<open>h\<close> the loop reached \<open>h'\<close>, where a chain \<open>q\<close> of new nodes denotes \<open>xs\<close>, the
  slot of \<open>pp\<close> holds \<open>q\<close>, and every other cell of \<open>h\<close> is as it was. \<open>final_head\<close> is
  the head variable at the end.
\<close>

definition pp_ok :: "Heap \<Rightarrow> Heap \<Rightarrow> addr option \<Rightarrow> bool" where
  "pp_ok h0 h pp = (\<forall>p. pp = Some p \<longrightarrow> length h0 \<le> p \<and> p < length h \<and> node_next (h ! p) = None)"

definition built :: "Heap \<Rightarrow> addr option \<Rightarrow> Heap \<Rightarrow> ListPtr \<Rightarrow> aval list \<Rightarrow> bool" where
  "built h pp h' q xs =
     (length h \<le> length h' \<and> lrepr (length h) h' q xs
      \<and> (\<forall>a<length h. Some a \<noteq> pp \<longrightarrow> h' ! a = h ! a)
      \<and> (\<forall>p. pp = Some p \<longrightarrow> h' ! p = (h ! p)\<lparr>node_next := q\<rparr>))"

definition final_head :: "addr option \<Rightarrow> ListPtr \<Rightarrow> ListPtr \<Rightarrow> ListPtr" where
  "final_head pp head q =
     (case pp of None \<Rightarrow> (case q of None \<Rightarrow> head | Some _ \<Rightarrow> q) | Some _ \<Rightarrow> head)"

section \<open>Well-formed states\<close>

text \<open>
  What holds of the environment and the heap throughout a run: the table is in strictly
  ascending order of its keys (the invariant of \<open>std::map\<close>), and every value in it
  denotes a mathematical value, so that no pointer dangles and no chain is cyclic.
\<close>

definition state_ok :: "Env \<Rightarrow> Heap \<Rightarrow> bool" where
  "state_ok env h =
     (sorted_wrt (<) (map fst (table env)) \<and> (\<forall>kv\<in>set (table env). \<exists>x. vrepr 0 h (snd kv) x))"

text \<open>
  The same with the denoted values at hand: \<open>vals\<close> lists, in the order of the table,
  what the values of the entries denote.
\<close>

definition state_repr :: "Env \<Rightarrow> Heap \<Rightarrow> aval list \<Rightarrow> bool" where
  "state_repr env h vals =
     (sorted_wrt (<) (map fst (table env))
      \<and> list_all2 (\<lambda>kv x. vrepr 0 h (snd kv) x) (table env) vals)"

text \<open>The identifier whose binding an instruction creates or changes, if it has one.\<close>

fun assigned :: "Instruction \<Rightarrow> string option" where
  "assigned (Instr_INTEGER l ident) = Some ident"
| "assigned (Instr_LIST l ident) = Some ident"
| "assigned (Instr_MERGE l from tolist) = Some tolist"
| "assigned (Instr_COPY l src dst) = Some dst"
| "assigned (Instr_HEAD l listid ident) = Some ident"
| "assigned (Instr_TAIL l src dst) = Some dst"
| "assigned (Instr_ASSIGN l ident val) = Some ident"
| "assigned (Instr_CHS l ident) = Some ident"
| "assigned (Instr_ADD l a b) = Some a"
| "assigned (Instr_IF l ident target) = None"
| "assigned (Instr_HLT l) = None"
| "assigned (NOP l) = None"

text \<open>The identifier operands of an instruction, as the parser stored them.\<close>

fun operands :: "Instruction \<Rightarrow> string list" where
  "operands (Instr_INTEGER l ident) = [ident]"
| "operands (Instr_LIST l ident) = [ident]"
| "operands (Instr_MERGE l from tolist) = [from, tolist]"
| "operands (Instr_COPY l src dst) = [src, dst]"
| "operands (Instr_HEAD l listid ident) = [listid, ident]"
| "operands (Instr_TAIL l src dst) = [src, dst]"
| "operands (Instr_ASSIGN l ident val) = [ident]"
| "operands (Instr_CHS l ident) = [ident]"
| "operands (Instr_ADD l a b) = [a, b]"
| "operands (Instr_IF l ident target) = [ident]"
| "operands (Instr_HLT l) = []"
| "operands (NOP l) = []"

text \<open>
  A program as \<open>load_program\<close> delivers it: the instruction at index \<open>i\<close> carries the line
  number \<open>i + 1\<close>, and no operand contains a line break.
\<close>

definition loaded :: "Instruction list \<Rightarrow> bool" where
  "loaded prog =
     (\<forall>i<length prog. lineNo (prog ! i) = int i + 1
        \<and> (\<forall>s\<in>set (operands (prog ! i)). CHR 0x0A \<notin> set s))"

section \<open>Heaps that only grow\<close>

lemma repr_frame:
  "vrepr lo h val x \<Longrightarrow> (\<forall>a. lo \<le> a \<and> a < length h \<longrightarrow> a < length h' \<and> h' ! a = h ! a)
     \<Longrightarrow> vrepr lo h' val x"
  "lrepr lo h p xs \<Longrightarrow> (\<forall>a. lo \<le> a \<and> a < length h \<longrightarrow> a < length h' \<and> h' ! a = h ! a)
     \<Longrightarrow> lrepr lo h' p xs"
  by (induction lo h val x and lo h p xs rule: vrepr_lrepr.induct)
     (auto split: option.splits)

lemma repr_lo_mono:
  "vrepr lo h val x \<Longrightarrow> lo' \<le> lo \<Longrightarrow> vrepr lo' h val x"
  "lrepr lo h p xs \<Longrightarrow> lo' \<le> lo \<Longrightarrow> lrepr lo' h p xs"
  by (induction lo h val x and lo h p xs rule: vrepr_lrepr.induct)
     (auto split: option.splits)

lemma prefix_nth: "prefix h h' \<Longrightarrow> a < length h \<Longrightarrow> h' ! a = h ! a"
  by (auto simp: prefix_def nth_append)

lemma prefix_length: "prefix h h' \<Longrightarrow> length h \<le> length h'"
  by (auto simp: prefix_def)

lemma repr_prefix:
  "vrepr lo h val x \<Longrightarrow> prefix h h' \<Longrightarrow> vrepr lo h' val x"
  "lrepr lo h p xs \<Longrightarrow> prefix h h' \<Longrightarrow> lrepr lo h' p xs"
  using repr_frame prefix_nth prefix_length
  by (metis less_le_trans)+

lemma prefix_update: "prefix h0 h \<Longrightarrow> length h0 \<le> p \<Longrightarrow> prefix h0 (h[p := z])"
  by (auto simp: prefix_def list_update_append)

lemma prefixI_nth:
  assumes "length h \<le> length h'" and "\<forall>a<length h. h' ! a = h ! a"
  shows "prefix h h'"
proof -
  have "take (length h) h' = h"
    using assms by (intro nth_equalityI) auto
  then show ?thesis by (metis take_is_prefix)
qed

section \<open>Linking a new node into the chain\<close>

lemma link_pre:
  assumes ext: "prefix h0 h" and p2: "prefix h h2" and pp: "pp_ok h0 h pp"
    and st: "store_ptr pp (Some (length h2)) head (h2 @ [\<lparr>node_v = vcopy, node_next = None\<rparr>]) = (head', h4)"
  shows "prefix h0 h4" and "pp_ok h0 h4 (Some (length h2))"
    and "head' = (case pp of None \<Rightarrow> Some (length h2) | Some _ \<Rightarrow> head)"
proof -
  let ?h3 = "h2 @ [\<lparr>node_v = vcopy, node_next = None\<rparr>]"
  have p03: "prefix h0 ?h3"
    using ext p2 by (auto simp: prefix_def)
  show p04: "prefix h0 h4"
    using p03 pp st by (auto simp: pp_ok_def store_ptr_def prefix_update split: option.splits)
  have len: "length h0 \<le> length h" "length h \<le> length h2" "length h4 = Suc (length h2)"
    using prefix_length [OF ext] prefix_length [OF p2] st
    by (auto simp: store_ptr_def split: option.splits)
  have "h4 ! length h2 = \<lparr>node_v = vcopy, node_next = None\<rparr>"
    using pp st len
    by (auto simp: pp_ok_def store_ptr_def nth_append nth_list_update split: option.splits)
  then show "pp_ok h0 h4 (Some (length h2))"
    using len by (simp add: pp_ok_def)
  show "head' = (case pp of None \<Rightarrow> Some (length h2) | Some _ \<Rightarrow> head)"
    using st by (auto simp: store_ptr_def split: option.splits)
qed

lemma link_post:
  assumes p2: "prefix h h2" and pp: "pp_ok h0 h pp"
    and st: "store_ptr pp (Some (length h2)) head (h2 @ [\<lparr>node_v = vcopy, node_next = None\<rparr>]) = (head', h4)"
    and v2: "vrepr (length h) h2 vcopy x"
    and rest: "built h4 (Some (length h2)) h' q' xs"
  shows "built h pp h' (Some (length h2)) (x # xs)"
proof -
  define a where "a = length h2"
  let ?h3 = "h2 @ [\<lparr>node_v = vcopy, node_next = None\<rparr>]"
  have len: "length h \<le> a" "length h4 = Suc a"
    using prefix_length [OF p2] st by (auto simp: a_def store_ptr_def split: option.splits)
  have ppl: "p < length h" if "pp = Some p" for p
    using pp that by (simp add: pp_ok_def)
  have h4a: "h4 ! a = \<lparr>node_v = vcopy, node_next = None\<rparr>"
    using st ppl len
    by (auto simp: a_def store_ptr_def nth_append nth_list_update split: option.splits)
  have h4b: "h4 ! b = h2 ! b" if "b < a" "Some b \<noteq> pp" for b
    using that st by (auto simp: a_def store_ptr_def nth_append nth_list_update split: option.splits)
  have h4p: "h4 ! p = (h ! p)\<lparr>node_next := Some a\<rparr>" if "pp = Some p" for p
  proof -
    have "p < length h" using ppl that by simp
    then have "?h3 ! p = h ! p" "p < length ?h3"
      using prefix_nth [OF p2] len by (auto simp: nth_append a_def)
    then show ?thesis using that st by (auto simp: store_ptr_def a_def)
  qed
  from rest have l': "length h4 \<le> length h'"
    and r': "lrepr (length h4) h' q' xs"
    and f': "\<forall>b<length h4. b \<noteq> a \<longrightarrow> h' ! b = h4 ! b"
    and a': "h' ! a = (h4 ! a)\<lparr>node_next := q'\<rparr>"
    by (auto simp: built_def a_def)
  have old: "h' ! b = h2 ! b" if "b < a" "Some b \<noteq> pp" for b
    using f' h4b [OF that] that len by simp
  have "vrepr (length h) h' vcopy x"
  proof (rule repr_frame(1) [OF v2], intro allI impI conjI)
    fix b assume b: "length h \<le> b \<and> b < length h2"
    then show "b < length h'" using l' len by (simp add: a_def)
    have "Some b \<noteq> pp" using ppl b by auto
    then show "h' ! b = h2 ! b" using old b by (simp add: a_def)
  qed
  moreover have "lrepr (length h) h' q' xs"
    using r' by (rule repr_lo_mono) (use len in simp)
  ultimately have rnew: "lrepr (length h) h' (Some a) (x # xs)"
    using len l' a' h4a by simp
  have frame: "\<forall>b<length h. Some b \<noteq> pp \<longrightarrow> h' ! b = h ! b"
    using old prefix_nth [OF p2] len by auto
  have patched: "\<forall>p. pp = Some p \<longrightarrow> h' ! p = (h ! p)\<lparr>node_next := Some a\<rparr>"
  proof (intro allI impI)
    fix p assume p: "pp = Some p"
    then have "p < length h" using ppl by simp
    then have "p < length h4" "p \<noteq> a" using len by auto
    then show "h' ! p = (h ! p)\<lparr>node_next := Some a\<rparr>" using f' h4p [OF p] by simp
  qed
  show ?thesis
    unfolding built_def a_def [symmetric]
    using rnew frame patched len l' by auto
qed

lemma built_Nil: "pp_ok h0 h pp \<Longrightarrow> built h pp h None []"
  by (auto simp: built_def pp_ok_def)

lemma built_prefix:
  assumes "built h None h' q xs"
  shows "prefix h h'"
  using assms by (intro prefixI_nth) (auto simp: built_def)

section \<open>\<open>deep_copy\<close> returns a fresh structure that denotes the same value\<close>

lemma loop_None: "deep_copy_rec (Loop head pp None) h = Some (make_list head, h)"
  by (subst deep_copy_rec.simps) simp

lemma copy_unfold:
  "deep_copy_rec (Copy val) h =
     (if type val = VT_INT then Some (make_int (ival val), h)
      else if list val = None then Some (make_list None, h)
      else deep_copy_rec (Loop None None (list val)) h)"
  by (subst deep_copy_rec.simps) simp

lemma loop_Some_int:
  "deref h c = Some n \<Longrightarrow> type (node_v n) = VT_INT \<Longrightarrow>
   deep_copy_rec (Loop head pp (Some c)) h = loop_rest head pp n (make_int (ival (node_v n))) h"
  by (subst deep_copy_rec.simps) (simp add: loop_rest_def make_shared_def split: prod.splits)

lemma loop_Some_nil:
  "deref h c = Some n \<Longrightarrow> type (node_v n) = VT_LIST \<Longrightarrow> list (node_v n) = None \<Longrightarrow>
   deep_copy_rec (Copy (node_v n)) h = Some (vcopy, h2) \<Longrightarrow>
   deep_copy_rec (Loop head pp (Some c)) h = loop_rest head pp n vcopy h2"
  by (subst deep_copy_rec.simps) (simp add: loop_rest_def make_shared_def split: prod.splits)

lemma loop_Some_cons:
  "deref h c = Some n \<Longrightarrow> type (node_v n) = VT_LIST \<Longrightarrow> list (node_v n) = Some e \<Longrightarrow>
   deref h e = Some en \<Longrightarrow> deep_copy_rec (Copy (node_v en)) h = Some (tmp, h1) \<Longrightarrow>
   deep_copy_rec (Copy (node_v n)) h1 = Some (vcopy, h2) \<Longrightarrow>
   deep_copy_rec (Loop head pp (Some c)) h = loop_rest head pp n vcopy h2"
  by (subst deep_copy_rec.simps) (simp add: loop_rest_def make_shared_def split: prod.splits)

text \<open>Copying one element: the phase of the loop body before the node is allocated.\<close>

lemma loop_elem:
  assumes node: "deref h c = Some n"
    and rep: "vrepr lo h (node_v n) x"
    and self: "\<And>lo h val. vrepr lo h val x \<Longrightarrow>
        \<exists>val' h'. deep_copy_rec (Copy val) h = Some (val', h') \<and> prefix h h' \<and> vrepr (length h) h' val' x"
    and sub: "\<And>ys y lo h val. x = AList ys \<Longrightarrow> y \<in> set ys \<Longrightarrow> vrepr lo h val y \<Longrightarrow>
        \<exists>val' h'. deep_copy_rec (Copy val) h = Some (val', h') \<and> prefix h h' \<and> vrepr (length h) h' val' y"
  shows "\<exists>vcopy h2. deep_copy_rec (Loop head pp (Some c)) h = loop_rest head pp n vcopy h2
            \<and> prefix h h2 \<and> vrepr (length h) h2 vcopy x"
proof (cases x)
  case (AInt i)
  with rep have "type (node_v n) = VT_INT" "ival (node_v n) = i" by simp_all
  then have "deep_copy_rec (Loop head pp (Some c)) h = loop_rest head pp n (make_int i) h"
    "vrepr (length h) h (make_int i) x"
    using loop_Some_int [OF node] AInt by (simp_all add: make_int_def)
  then show ?thesis by blast
next
  case (AList ys)
  with rep have ty: "type (node_v n) = VT_LIST" and l: "lrepr lo h (list (node_v n)) ys"
    by simp_all
  show ?thesis
  proof (cases ys)
    case Nil
    with l have ln: "list (node_v n) = None" by simp
    from self [OF rep] obtain vcopy h2 where
      c: "deep_copy_rec (Copy (node_v n)) h = Some (vcopy, h2)" "prefix h h2"
         "vrepr (length h) h2 vcopy x" by blast
    show ?thesis using loop_Some_nil [OF node ty ln c(1)] c by blast
  next
    case (Cons y ys')
    with l obtain e where e: "list (node_v n) = Some e" "e < length h"
        "vrepr lo h (node_v (h ! e)) y"
      by (auto split: option.splits)
    then have de: "deref h e = Some (h ! e)" by (simp add: deref_def)
    have "y \<in> set ys" using Cons by simp
    from sub [OF AList this e(3)] obtain tmp h1 where
      t: "deep_copy_rec (Copy (node_v (h ! e))) h = Some (tmp, h1)" "prefix h h1" by blast
    have "vrepr lo h1 (node_v n) x" using rep t(2) by (rule repr_prefix)
    from self [OF this] obtain vcopy h2 where
      c: "deep_copy_rec (Copy (node_v n)) h1 = Some (vcopy, h2)" "prefix h1 h2"
         "vrepr (length h1) h2 vcopy x" by blast
    have "prefix h h2" using t(2) c(2) by (rule prefix_order.trans)
    moreover have "vrepr (length h) h2 vcopy x"
      using c(3) prefix_length [OF t(2)] by (rule repr_lo_mono)
    ultimately show ?thesis
      using loop_Some_cons [OF node ty e(1) de t(1) c(1)] by blast
  qed
qed

lemma deep_copy_loop:
  assumes elems: "\<And>x lo h val. x \<in> set xs \<Longrightarrow> vrepr lo h val x \<Longrightarrow>
        \<exists>val' h'. deep_copy_rec (Copy val) h = Some (val', h') \<and> prefix h h' \<and> vrepr (length h) h' val' x"
    and subs: "\<And>ys y lo h val. AList ys \<in> set xs \<Longrightarrow> y \<in> set ys \<Longrightarrow> vrepr lo h val y \<Longrightarrow>
        \<exists>val' h'. deep_copy_rec (Copy val) h = Some (val', h') \<and> prefix h h' \<and> vrepr (length h) h' val' y"
    and src: "lrepr lo h0 cur xs"
    and ext: "prefix h0 h"
    and pp: "pp_ok h0 h pp"
  shows "\<exists>q h'. deep_copy_rec (Loop head pp cur) h = Some (make_list (final_head pp head q), h')
           \<and> built h pp h' q xs"
  using elems subs src ext pp
proof (induction xs arbitrary: cur h head pp)
  case Nil
  then have "cur = None" by simp
  then show ?case
    using built_Nil [OF Nil.prems(5)]
    by (auto simp: loop_None final_head_def split: option.splits intro!: exI [of _ None])
next
  case (Cons x xs)
  from Cons.prems(3) obtain c where c: "cur = Some c" "c < length h0"
      "vrepr lo h0 (node_v (h0 ! c)) x" "lrepr lo h0 (node_next (h0 ! c)) xs"
    by (auto split: option.splits)
  define n where "n = h0 ! c"
  have hc: "h ! c = n" using prefix_nth [OF Cons.prems(4) c(2)] by (simp add: n_def)
  have "c < length h" using c(2) prefix_length [OF Cons.prems(4)] by simp
  then have node: "deref h c = Some n" using hc by (simp add: deref_def)
  have rep: "vrepr lo h (node_v n) x"
    using c(3) Cons.prems(4) unfolding n_def by (rule repr_prefix)
  have "\<exists>vcopy h2. deep_copy_rec (Loop head pp (Some c)) h = loop_rest head pp n vcopy h2
            \<and> prefix h h2 \<and> vrepr (length h) h2 vcopy x"
  proof (rule loop_elem [OF node rep])
    show "\<exists>val' h'. deep_copy_rec (Copy val) h = Some (val', h') \<and> prefix h h' \<and> vrepr (length h) h' val' x"
      if "vrepr lo h val x" for lo h val
      using Cons.prems(1) [OF _ that] by simp
    show "\<exists>val' h'. deep_copy_rec (Copy val) h = Some (val', h') \<and> prefix h h' \<and> vrepr (length h) h' val' y"
      if "x = AList ys" "y \<in> set ys" "vrepr lo h val y" for ys y lo h val
      using Cons.prems(2) [OF _ that(2,3)] that(1) by simp
  qed
  then obtain vcopy h2 where
    step: "deep_copy_rec (Loop head pp (Some c)) h = loop_rest head pp n vcopy h2"
    and p2: "prefix h h2" and v2: "vrepr (length h) h2 vcopy x" by blast
  obtain head' h4 where
    st: "store_ptr pp (Some (length h2)) head (h2 @ [\<lparr>node_v = vcopy, node_next = None\<rparr>]) = (head', h4)"
    by (cases "store_ptr pp (Some (length h2)) head (h2 @ [\<lparr>node_v = vcopy, node_next = None\<rparr>])")
  have rest: "loop_rest head pp n vcopy h2 = deep_copy_rec (Loop head' (Some (length h2)) (node_next n)) h4"
    by (simp add: loop_rest_def st)
  note pre = link_pre [OF Cons.prems(4) p2 Cons.prems(5) st]
  have "\<exists>q h'. deep_copy_rec (Loop head' (Some (length h2)) (node_next n)) h4
              = Some (make_list (final_head (Some (length h2)) head' q), h')
           \<and> built h4 (Some (length h2)) h' q xs"
  proof (rule Cons.IH)
    show "\<exists>val' h'. deep_copy_rec (Copy val) h = Some (val', h') \<and> prefix h h' \<and> vrepr (length h) h' val' x"
      if "x \<in> set xs" "vrepr lo h val x" for x lo h val
      using Cons.prems(1) [OF _ that(2)] that(1) by simp
    show "\<exists>val' h'. deep_copy_rec (Copy val) h = Some (val', h') \<and> prefix h h' \<and> vrepr (length h) h' val' y"
      if "AList ys \<in> set xs" "y \<in> set ys" "vrepr lo h val y" for ys y lo h val
      using Cons.prems(2) [OF _ that(2,3)] that(1) by simp
    show "lrepr lo h0 (node_next n) xs" using c(4) by (simp add: n_def)
    show "prefix h0 h4" by (rule pre(1))
    show "pp_ok h0 h4 (Some (length h2))" by (rule pre(2))
  qed
  then obtain q' h' where
    run: "deep_copy_rec (Loop head' (Some (length h2)) (node_next n)) h4 = Some (make_list head', h')"
    and b': "built h4 (Some (length h2)) h' q' xs"
    by (auto simp: final_head_def)
  have "built h pp h' (Some (length h2)) (x # xs)"
    using p2 Cons.prems(5) st v2 b' by (rule link_post)
  moreover have "deep_copy_rec (Loop head pp cur) h
      = Some (make_list (final_head pp head (Some (length h2))), h')"
    using step rest run c(1) pre(3) by (simp add: final_head_def split: option.splits)
  ultimately show ?case by blast
qed

lemma size_elem: "x \<in> set xs \<Longrightarrow> size x < size (AList xs)"
  by (induction xs) auto

lemma size_elem2: "AList ys \<in> set xs \<Longrightarrow> y \<in> set ys \<Longrightarrow> size y < size (AList xs)"
  using size_elem [of y ys] size_elem [of "AList ys" xs] by simp

lemma deep_copy_rec_correct:
  "vrepr lo h val x \<Longrightarrow>
     \<exists>val' h'. deep_copy_rec (Copy val) h = Some (val', h') \<and> prefix h h' \<and> vrepr (length h) h' val' x"
proof (induction x arbitrary: lo h val rule: measure_induct_rule [of size])
  case (less x)
  show ?case
  proof (cases x)
    case (AInt i)
    with less.prems show ?thesis
      by (simp add: copy_unfold make_int_def)
  next
    case (AList xs)
    with less.prems have ty: "type val = VT_LIST" and l: "lrepr lo h (list val) xs"
      by simp_all
    show ?thesis
    proof (cases xs)
      case Nil
      with l ty AList show ?thesis
        by (simp add: copy_unfold make_list_def)
    next
      case (Cons y ys)
      with l have ne: "list val \<noteq> None" by (auto split: option.splits)
      have "\<exists>q h'. deep_copy_rec (Loop None None (list val)) h = Some (make_list (final_head None None q), h')
           \<and> built h None h' q xs"
      proof (rule deep_copy_loop [where ?h0.0 = h and lo = lo])
        show "\<exists>val' h'. deep_copy_rec (Copy val) h = Some (val', h') \<and> prefix h h' \<and> vrepr (length h) h' val' z"
          if "z \<in> set xs" "vrepr lo h val z" for z lo h val
          using less.IH [OF _ that(2)] size_elem [OF that(1)] AList by simp
        show "\<exists>val' h'. deep_copy_rec (Copy val) h = Some (val', h') \<and> prefix h h' \<and> vrepr (length h) h' val' z"
          if "AList zs \<in> set xs" "z \<in> set zs" "vrepr lo h val z" for zs z lo h val
          using less.IH [OF _ that(3)] size_elem2 [OF that(1,2)] AList by simp
        show "lrepr lo h (list val) xs" by (rule l)
      qed (simp_all add: pp_ok_def)
      then obtain q h' where
        run: "deep_copy_rec (Loop None None (list val)) h = Some (make_list q, h')"
        and b: "built h None h' q xs"
        by (auto simp: final_head_def split: option.splits)
      have "prefix h h'" using b by (rule built_prefix)
      moreover have "vrepr (length h) h' (make_list q) x"
        using b AList by (simp add: make_list_def built_def)
      ultimately show ?thesis
        using run ty ne by (auto simp: copy_unfold)
    qed
  qed
qed

lemma deep_copy_correct:
  "vrepr lo h val x \<Longrightarrow>
     \<exists>val' h'. deep_copy val h = Some (val', h') \<and> prefix h h' \<and> vrepr (length h) h' val' x"
  unfolding deep_copy_def by (rule deep_copy_rec_correct)

section \<open>The copy loop of \<open>TAIL\<close>\<close>

lemma tail_loop_None: "tail_loop newHead pp None h = Some (newHead, h)"
  by (subst tail_loop.simps) simp

lemma tail_loop_Some:
  "deref h c = Some n \<Longrightarrow> deep_copy (node_v n) h = Some (vcopy, h2) \<Longrightarrow>
   store_ptr pp (Some (length h2)) newHead (h2 @ [\<lparr>node_v = vcopy, node_next = None\<rparr>]) = (head', h4) \<Longrightarrow>
   tail_loop newHead pp (Some c) h = tail_loop head' (Some (length h2)) (node_next n) h4"
  by (subst tail_loop.simps) (simp add: make_shared_def)

lemma tail_loop_correct:
  assumes src: "lrepr lo h0 cur xs"
    and ext: "prefix h0 h"
    and pp: "pp_ok h0 h pp"
  shows "\<exists>q h'. tail_loop newHead pp cur h = Some (final_head pp newHead q, h') \<and> built h pp h' q xs"
  using src ext pp
proof (induction xs arbitrary: cur h newHead pp)
  case Nil
  then have "cur = None" by simp
  then show ?case
    using built_Nil [OF Nil.prems(3)]
    by (auto simp: tail_loop_None final_head_def split: option.splits intro!: exI [of _ None])
next
  case (Cons x xs)
  from Cons.prems(1) obtain c where c: "cur = Some c" "c < length h0"
      "vrepr lo h0 (node_v (h0 ! c)) x" "lrepr lo h0 (node_next (h0 ! c)) xs"
    by (auto split: option.splits)
  define n where "n = h0 ! c"
  have hc: "h ! c = n" using prefix_nth [OF Cons.prems(2) c(2)] by (simp add: n_def)
  have "c < length h" using c(2) prefix_length [OF Cons.prems(2)] by simp
  then have node: "deref h c = Some n" using hc by (simp add: deref_def)
  have rep: "vrepr lo h (node_v n) x"
    using c(3) Cons.prems(2) unfolding n_def by (rule repr_prefix)
  from deep_copy_correct [OF rep] obtain vcopy h2 where
    dc: "deep_copy (node_v n) h = Some (vcopy, h2)"
    and p2: "prefix h h2" and v2: "vrepr (length h) h2 vcopy x" by blast
  obtain head' h4 where
    st: "store_ptr pp (Some (length h2)) newHead (h2 @ [\<lparr>node_v = vcopy, node_next = None\<rparr>]) = (head', h4)"
    by (cases "store_ptr pp (Some (length h2)) newHead (h2 @ [\<lparr>node_v = vcopy, node_next = None\<rparr>])")
  note step = tail_loop_Some [OF node dc st]
  note pre = link_pre [OF Cons.prems(2) p2 Cons.prems(3) st]
  have "\<exists>q h'. tail_loop head' (Some (length h2)) (node_next n) h4
              = Some (final_head (Some (length h2)) head' q, h')
           \<and> built h4 (Some (length h2)) h' q xs"
  proof (rule Cons.IH)
    show "lrepr lo h0 (node_next n) xs" using c(4) by (simp add: n_def)
    show "prefix h0 h4" by (rule pre(1))
    show "pp_ok h0 h4 (Some (length h2))" by (rule pre(2))
  qed
  then obtain q' h' where
    run: "tail_loop head' (Some (length h2)) (node_next n) h4 = Some (head', h')"
    and b': "built h4 (Some (length h2)) h' q' xs"
    by (auto simp: final_head_def)
  have "built h pp h' (Some (length h2)) (x # xs)"
    using p2 Cons.prems(3) st v2 b' by (rule link_post)
  moreover have "tail_loop newHead pp cur h = Some (final_head pp newHead (Some (length h2)), h')"
    using step run c(1) pre(3) by (simp add: final_head_def split: option.splits)
  ultimately show ?case by blast
qed

lemma tail_loop_fresh:
  assumes "lrepr lo h cur xs"
  shows "\<exists>q h'. tail_loop None None cur h = Some (q, h') \<and> prefix h h' \<and> lrepr (length h) h' q xs"
proof -
  have "\<exists>q h'. tail_loop None None cur h = Some (final_head None None q, h') \<and> built h None h' q xs"
    using assms by (rule tail_loop_correct) (simp_all add: pp_ok_def)
  then obtain q h' where r: "tail_loop None None cur h = Some (q, h')" and b: "built h None h' q xs"
    by (auto simp: final_head_def split: option.splits)
  from b have "prefix h h'" by (rule built_prefix)
  moreover from b have "lrepr (length h) h' q xs" by (simp add: built_def)
  ultimately show ?thesis using r by blast
qed

section \<open>The environment as a finite map\<close>

lemma map_of_table_set: "map_of (table_set k v t) = (map_of t)(k \<mapsto> v)"
  by (induction t) auto

lemma keys_table_set: "fst ` set (table_set k v t) = insert k (fst ` set t)"
  by (simp add: dom_map_of_conv_image_fst [symmetric] map_of_table_set)

lemma sorted_table_set:
  "sorted_wrt (<) (map fst t) \<Longrightarrow> sorted_wrt (<) (map fst (table_set k v t))"
proof (induction t)
  case Nil
  then show ?case by simp
next
  case (Cons kv t)
  obtain k' v' where kv: "kv = (k', v')" by (cases kv)
  have "\<forall>x\<in>fst ` set (table_set k v t). k' < x" if "k' < k"
    using Cons.prems that unfolding keys_table_set kv by auto
  then show ?case
    using Cons kv by (auto simp: image_iff)
qed

lemma lookup_set: "lookup (Env_set env k v) k' = (if k' = k then Some v else lookup env k')"
  by (simp add: lookup_def Env_set_def map_of_table_set)

lemma declared_set: "declared (Env_set env k v) = insert k (declared env)"
  by (simp add: declared_def Env_set_def keys_table_set)

lemma declared_lookup: "k \<in> declared env \<longleftrightarrow> lookup env k \<noteq> None"
  by (simp add: declared_def lookup_def map_of_eq_None_iff)

lemma exists_declared: "Env_exists env k \<longleftrightarrow> k \<in> declared env"
  by (simp add: Env_exists_def declared_lookup)

lemma exists_lookup: "lookup env k = Some v \<Longrightarrow> Env_exists env k"
  by (simp add: Env_exists_def)

lemma get_const_lookup: "lookup env k = Some v \<Longrightarrow> Env_get_const env k = Inr v"
  by (simp add: Env_get_const_def)

lemma get_lookup: "lookup env k = Some v \<Longrightarrow> Env_get env k = Inr v"
  by (simp add: Env_get_def Env_get_const_def)

lemma not_exists_lookup: "\<not> Env_exists env k \<longleftrightarrow> lookup env k = None"
  by (simp add: Env_exists_def)

lemma get_const_exists: "Env_exists env k \<Longrightarrow> \<exists>v. Env_get_const env k = Inr v \<and> lookup env k = Some v"
  by (auto simp: Env_exists_def Env_get_const_def)

section \<open>Single instructions\<close>

lemma execute_declared:
  "execute ins env pc prog h = Some (r, env', h') \<Longrightarrow> declared env \<subseteq> declared env'"
  by (cases ins)
     (auto simp: throw_def rethrow_def goto_def declared_set Let_def
           split: if_splits sum.splits option.splits prod.splits)

lemma execute_error_env:
  "execute ins env pc prog h = Some (Inl e, env', h') \<Longrightarrow> env' = env"
  by (cases ins)
     (auto simp: throw_def rethrow_def goto_def Let_def
           split: if_splits sum.splits option.splits prod.splits)

lemma execute_error_heap:
  "execute ins env pc prog h = Some (Inl e, env', h') \<Longrightarrow>
     (\<forall>l a b. ins \<noteq> Instr_MERGE l a b) \<Longrightarrow> h' = h"
  by (cases ins)
     (auto simp: throw_def rethrow_def goto_def Let_def
           split: if_splits sum.splits option.splits prod.splits)

section \<open>Runs\<close>

lemma run_loop_unfold:
  "run_loop prog pc env h =
     (if pc \<ge> 1
      then (if pc > int (length prog) then Some (None, env, h)
            else (case execute (prog ! nat (pc - 1)) env pc prog h of
                    None \<Rightarrow> None
                  | Some (Inl e, env', h') \<Rightarrow> Some (Some e, env', h')
                  | Some (Inr next, env', h') \<Rightarrow>
                      if next = - 1 then Some (None, env', h') else run_loop prog next env' h'))
      else Some (None, env, h))"
  by (subst run_loop.simps) (simp split: option.splits sum.splits prod.splits)

lemma run_n_loop:
  "run_n k prog (pc, env, h) = Some (pc', env', h') \<Longrightarrow>
     run_loop prog pc env h = run_loop prog pc' env' h'"
proof (induction k arbitrary: pc env h)
  case 0
  then show ?case by simp
next
  case (Suc k)
  from Suc.prems obtain nxt env1 h1 where
    rng: "1 \<le> pc" "pc \<le> int (length prog)"
    and ex: "execute (prog ! nat (pc - 1)) env pc prog h = Some (Inr nxt, env1, h1)"
    and nx: "nxt \<noteq> - 1"
    and rest: "run_n k prog (nxt, env1, h1) = Some (pc', env', h')"
    by (auto split: if_splits option.splits sum.splits prod.splits)
  have "run_loop prog pc env h = run_loop prog nxt env1 h1"
    using rng ex nx by (subst run_loop_unfold) simp
  then show ?case using Suc.IH [OF rest] by simp
qed

lemma run_n_declared:
  "run_n k prog (pc, env, h) = Some (pc', env', h') \<Longrightarrow> declared env \<subseteq> declared env'"
proof (induction k arbitrary: pc env h)
  case 0
  then show ?case by simp
next
  case (Suc k)
  from Suc.prems obtain nxt env1 h1 where
    ex: "execute (prog ! nat (pc - 1)) env pc prog h = Some (Inr nxt, env1, h1)"
    and rest: "run_n k prog (nxt, env1, h1) = Some (pc', env', h')"
    by (auto split: if_splits option.splits sum.splits prod.splits)
  show ?case
    using execute_declared [OF ex] Suc.IH [OF rest] by blast
qed


lemma run_loop_declared:
  assumes "run_loop prog pc env h = Some y"
  shows "declared env \<subseteq> declared (fst (snd y))"
proof (rule run_loop.raw_induct [where P = "\<lambda>prog pc env h y. declared env \<subseteq> declared (fst (snd y))",
      OF _ assms], goal_cases)
  case (1 run_loop' prog pc env h y)
  show ?case
  proof (cases "1 \<le> pc \<and> pc \<le> int (length prog)")
    case False
    then show ?thesis using 1(2) by (auto split: if_splits)
  next
    case True
    then obtain r env1 h1 where
      ex: "execute (prog ! nat (pc - 1)) env pc prog h = Some (r, env1, h1)"
      using 1(2) by (cases "execute (prog ! nat (pc - 1)) env pc prog h") auto
    note d1 = execute_declared [OF ex]
    show ?thesis
    proof (cases r)
      case (Inl e)
      then show ?thesis using 1(2) True ex d1 by auto
    next
      case (Inr nxt)
      show ?thesis
      proof (cases "nxt = - 1")
        case True
        then show ?thesis using 1(2) \<open>1 \<le> pc \<and> pc \<le> int (length prog)\<close> ex d1 Inr by auto
      next
        case False
        then have "run_loop' prog nxt env1 h1 = Some y"
          using 1(2) \<open>1 \<le> pc \<and> pc \<le> int (length prog)\<close> ex Inr by auto
        from 1(1) [OF this] show ?thesis using d1 by auto
      qed
    qed
  qed
qed

lemma execute_other:
  "execute ins env pc prog h = Some (r, env', h') \<Longrightarrow> assigned ins \<noteq> Some k \<Longrightarrow>
     lookup env' k = lookup env k"
  by (cases ins)
     (auto simp: throw_def rethrow_def goto_def lookup_set Let_def
           split: if_splits sum.splits option.splits prod.splits)

section \<open>The instructions on well-formed states\<close>

lemma set_table_set: "set (table_set k v t) \<subseteq> insert (k, v) (set t)"
  by (induction t) (auto split: if_splits)

lemma state_ok_lookup:
  "state_ok env h \<Longrightarrow> lookup env k = Some v \<Longrightarrow> \<exists>x. vrepr 0 h v x"
  by (force simp: state_ok_def lookup_def dest: map_of_SomeD)

lemma state_ok_prefix: "state_ok env h \<Longrightarrow> prefix h h' \<Longrightarrow> state_ok env h'"
  unfolding state_ok_def using repr_prefix(1) by blast

lemma state_ok_set:
  assumes "state_ok env h" and "prefix h h'" and "vrepr 0 h' v x"
  shows "state_ok (Env_set env k v) h'"
proof -
  have "\<exists>x. vrepr 0 h' (snd kv) x" if "kv \<in> set (table_set k v (table env))" for kv
  proof (cases "kv = (k, v)")
    case True
    then show ?thesis using assms(3) by auto
  next
    case False
    then have "kv \<in> set (table env)" using that set_table_set by fastforce
    then show ?thesis using state_ok_prefix [OF assms(1,2)] by (simp add: state_ok_def)
  qed
  then show ?thesis
    using assms(1) by (simp add: state_ok_def Env_set_def sorted_table_set)
qed

lemma state_ok_empty: "state_ok \<lparr>table = []\<rparr> []"
  by (simp add: state_ok_def)

lemma state_repr_ok: "state_repr env h vals \<Longrightarrow> state_ok env h"
proof -
  assume r: "state_repr env h vals"
  have "\<exists>x. vrepr 0 h (snd kv) x" if "kv \<in> set (table env)" for kv
  proof -
    from that obtain i where "i < length (table env)" "table env ! i = kv"
      by (auto simp: in_set_conv_nth)
    with r have "vrepr 0 h (snd kv) (vals ! i)"
      by (auto simp: state_repr_def list_all2_conv_all_nth)
    then show ?thesis by blast
  qed
  then show ?thesis using r by (simp add: state_ok_def state_repr_def)
qed

lemma not_int_list: "type v \<noteq> VT_INT \<longleftrightarrow> type v = VT_LIST"
  by (cases "type v") simp_all

lemma vrepr_type_cases:
  assumes "vrepr lo h v x"
  obtains i where "type v = VT_INT" "x = AInt i" "ival v = i"
  | xs where "type v = VT_LIST" "x = AList xs" "lrepr lo h (list v) xs"
  using assms by (cases x) auto

text \<open>\<open>MERGE\<close>: the copy, the new node in front of the old chain, the new binding.\<close>

lemma exec_MERGE:
  assumes f: "lookup env from = Some fv" and rep: "vrepr lo h fv x"
    and t: "lookup env tolist = Some target"
  shows "\<exists>vfrom h1. deep_copy fv h = Some (vfrom, h1) \<and> prefix h h1 \<and> vrepr (length h) h1 vfrom x
          \<and> execute (Instr_MERGE l from tolist) env pc prog h =
              (if type target \<noteq> VT_LIST
               then Some (Inl (RuntimeError NotAList
                            (at_line l (''MERGE target is not a list: '' @ tolist))), env, h1)
               else Some (Inr (pc + 1), Env_set env tolist (make_list (Some (length h1))),
                          h1 @ [\<lparr>node_v = vfrom, node_next = list target\<rparr>]))"
proof -
  from deep_copy_correct [OF rep] obtain vfrom h1 where
    dc: "deep_copy fv h = Some (vfrom, h1)" "prefix h h1" "vrepr (length h) h1 vfrom x"
    by blast
  have "execute (Instr_MERGE l from tolist) env pc prog h =
              (if type target \<noteq> VT_LIST
               then Some (Inl (RuntimeError NotAList
                            (at_line l (''MERGE target is not a list: '' @ tolist))), env, h1)
               else Some (Inr (pc + 1), Env_set env tolist (make_list (Some (length h1))),
                          h1 @ [\<lparr>node_v = vfrom, node_next = list target\<rparr>]))"
    using exists_lookup [OF f] exists_lookup [OF t] get_const_lookup [OF f] get_const_lookup [OF t] dc(1)
    by (simp add: throw_def goto_def make_shared_def)
  then show ?thesis using dc by blast
qed

lemma exec_COPY:
  assumes s: "lookup env src = Some v" and ty: "type v = VT_LIST" and rep: "vrepr lo h v x"
  shows "\<exists>copy h1. deep_copy v h = Some (copy, h1) \<and> prefix h h1 \<and> vrepr (length h) h1 copy x
          \<and> execute (Instr_COPY l src dst) env pc prog h = Some (Inr (pc + 1), Env_set env dst copy, h1)"
proof -
  from deep_copy_correct [OF rep] obtain copy h1 where
    dc: "deep_copy v h = Some (copy, h1)" "prefix h h1" "vrepr (length h) h1 copy x"
    by blast
  have "execute (Instr_COPY l src dst) env pc prog h = Some (Inr (pc + 1), Env_set env dst copy, h1)"
    using exists_lookup [OF s] get_const_lookup [OF s] dc(1) ty
    by (simp add: goto_def)
  then show ?thesis using dc by blast
qed

lemma exec_HEAD:
  assumes s: "lookup env listid = Some lv" and ty: "type lv = VT_LIST"
    and rep: "lrepr lo h (list lv) (x # xs)"
  shows "\<exists>headval h1. prefix h h1 \<and> vrepr (length h) h1 headval x
          \<and> execute (Instr_HEAD l listid ident) env pc prog h
               = Some (Inr (pc + 1), Env_set env ident headval, h1)"
proof -
  from rep obtain a where a: "list lv = Some a" "a < length h" "vrepr lo h (node_v (h ! a)) x"
    by (auto split: option.splits)
  from deep_copy_correct [OF a(3)] obtain headval h1 where
    dc: "deep_copy (node_v (h ! a)) h = Some (headval, h1)" "prefix h h1"
        "vrepr (length h) h1 headval x"
    by blast
  have "execute (Instr_HEAD l listid ident) env pc prog h
      = Some (Inr (pc + 1), Env_set env ident headval, h1)"
    using exists_lookup [OF s] get_const_lookup [OF s] dc(1) ty a(1,2)
    by (simp add: goto_def deref_def)
  then show ?thesis using dc by blast
qed

lemma exec_HEAD_empty:
  assumes s: "lookup env listid = Some lv" and ty: "type lv = VT_LIST" and e: "list lv = None"
  shows "execute (Instr_HEAD l listid ident) env pc prog h
      = Some (Inl (RuntimeError EmptyList (at_line l (''HEAD on empty list: '' @ listid))), env, h)"
  using exists_lookup [OF s] get_const_lookup [OF s] ty e
  by (simp add: throw_def)

lemma exec_TAIL:
  assumes s: "lookup env src = Some sv" and ty: "type sv = VT_LIST"
    and rep: "lrepr lo h (list sv) (x # xs)"
  shows "\<exists>newHead h1. prefix h h1 \<and> lrepr (length h) h1 newHead xs
          \<and> execute (Instr_TAIL l src dst) env pc prog h
               = Some (Inr (pc + 1), Env_set env dst (make_list newHead), h1)"
proof -
  from rep obtain a where a: "list sv = Some a" "a < length h" "lrepr lo h (node_next (h ! a)) xs"
    by (auto split: option.splits)
  from tail_loop_fresh [OF a(3)] obtain newHead h1 where
    tl: "tail_loop None None (node_next (h ! a)) h = Some (newHead, h1)" "prefix h h1"
        "lrepr (length h) h1 newHead xs"
    by blast
  have "execute (Instr_TAIL l src dst) env pc prog h
      = Some (Inr (pc + 1), Env_set env dst (make_list newHead), h1)"
    using exists_lookup [OF s] get_const_lookup [OF s] tl(1) ty a(1,2)
    by (simp add: goto_def deref_def)
  then show ?thesis using tl by blast
qed

lemma exec_TAIL_empty:
  assumes s: "lookup env src = Some sv" and ty: "type sv = VT_LIST" and e: "list sv = None"
  shows "execute (Instr_TAIL l src dst) env pc prog h
      = Some (Inr (pc + 1), Env_set env dst (make_list None), h)"
  using exists_lookup [OF s] get_const_lookup [OF s] ty e
  by (simp add: goto_def)

text \<open>Every instruction returns on a well-formed state, and leaves one.\<close>

lemma execute_ok:
  assumes ok: "state_ok env h"
  shows "\<exists>r env' h'. execute ins env pc prog h = Some (r, env', h') \<and> state_ok env' h' \<and> prefix h h'"
proof (cases ins)
  case (Instr_INTEGER l ident)
  have "state_ok (Env_set env ident (make_int 0)) h"
    using ok by (rule state_ok_set [where x = "AInt 0"]) (simp_all add: make_int_def)
  then show ?thesis using ok Instr_INTEGER by (simp add: throw_def goto_def)
next
  case (Instr_LIST l ident)
  have "state_ok (Env_set env ident (make_list None)) h"
    using ok by (rule state_ok_set [where x = "AList []"]) (simp_all add: make_list_def)
  then show ?thesis using ok Instr_LIST by (simp add: throw_def goto_def)
next
  case (Instr_MERGE l frm tolist)
  show ?thesis
  proof (cases "Env_exists env frm \<and> Env_exists env tolist")
    case False
    then show ?thesis using ok Instr_MERGE by (auto simp: throw_def)
  next
    case True
    then obtain fv target where f: "lookup env frm = Some fv" and t: "lookup env tolist = Some target"
      by (auto simp: Env_exists_def)
    from state_ok_lookup [OF ok f] obtain x where x: "vrepr 0 h fv x" by blast
    from exec_MERGE [OF f x t, of l pc prog] obtain vfrom h1 where
      p: "prefix h h1" and v: "vrepr (length h) h1 vfrom x"
      and ex: "execute (Instr_MERGE l frm tolist) env pc prog h =
              (if type target \<noteq> VT_LIST
               then Some (Inl (RuntimeError NotAList
                            (at_line l (''MERGE target is not a list: '' @ tolist))), env, h1)
               else Some (Inr (pc + 1), Env_set env tolist (make_list (Some (length h1))),
                          h1 @ [\<lparr>node_v = vfrom, node_next = list target\<rparr>]))"
      by blast
    show ?thesis
    proof (cases "type target = VT_LIST")
      case False
      then show ?thesis using ex p state_ok_prefix [OF ok p] Instr_MERGE by simp
    next
      case True
      let ?h2 = "h1 @ [\<lparr>node_v = vfrom, node_next = list target\<rparr>]"
      from state_ok_lookup [OF ok t] True obtain ys where ys: "lrepr 0 h (list target) ys"
        by (auto elim: vrepr_type_cases)
      have p2: "prefix h ?h2" using p by (auto simp: prefix_def)
      have p12: "prefix h1 ?h2" by simp
      have "vrepr 0 ?h2 vfrom x"
        using repr_prefix(1) [OF v p12] by (rule repr_lo_mono) simp
      moreover have "lrepr 0 ?h2 (list target) ys" using ys p2 by (rule repr_prefix)
      ultimately have "vrepr 0 ?h2 (make_list (Some (length h1))) (AList (x # ys))"
        by (simp add: make_list_def)
      then have "state_ok (Env_set env tolist (make_list (Some (length h1)))) ?h2"
        using ok p2 by (intro state_ok_set)
      then show ?thesis using ex p2 True Instr_MERGE by simp
    qed
  qed
next
  case (Instr_COPY l src dst)
  show ?thesis
  proof (cases "lookup env src")
    case None
    then show ?thesis using ok Instr_COPY by (simp add: Env_exists_def throw_def)
  next
    case (Some v)
    show ?thesis
    proof (cases "type v = VT_LIST")
      case False
      then show ?thesis
        using ok Instr_COPY exists_lookup [OF Some] get_const_lookup [OF Some]
        by (simp add: throw_def)
    next
      case True
      from state_ok_lookup [OF ok Some] obtain x where x: "vrepr 0 h v x" by blast
      from exec_COPY [OF Some True x, of l dst pc prog] obtain copy h1 where
        c: "prefix h h1" "vrepr (length h) h1 copy x"
          "execute (Instr_COPY l src dst) env pc prog h = Some (Inr (pc + 1), Env_set env dst copy, h1)"
        by blast
      have "vrepr 0 h1 copy x" using c(2) by (rule repr_lo_mono) simp
      then have "state_ok (Env_set env dst copy) h1" using ok c(1) by (intro state_ok_set)
      then show ?thesis using c Instr_COPY by simp
    qed
  qed
next
  case (Instr_HEAD l listid ident)
  show ?thesis
  proof (cases "lookup env listid")
    case None
    then show ?thesis using ok Instr_HEAD by (simp add: Env_exists_def throw_def)
  next
    case (Some lv)
    show ?thesis
    proof (cases "type lv = VT_LIST")
      case False
      then show ?thesis
        using ok Instr_HEAD exists_lookup [OF Some] get_const_lookup [OF Some]
        by (simp add: throw_def)
    next
      case True
      from state_ok_lookup [OF ok Some] True obtain xs where xs: "lrepr 0 h (list lv) xs"
        by (auto elim: vrepr_type_cases)
      show ?thesis
      proof (cases xs)
        case Nil
        then have "list lv = None" using xs by simp
        from exec_HEAD_empty [OF Some True this] show ?thesis
          using ok Instr_HEAD by simp
      next
        case (Cons x xs')
        from exec_HEAD [OF Some True xs [unfolded Cons], of l ident pc prog] obtain headval h1 where
          c: "prefix h h1" "vrepr (length h) h1 headval x"
            "execute (Instr_HEAD l listid ident) env pc prog h
               = Some (Inr (pc + 1), Env_set env ident headval, h1)"
          by blast
        have "vrepr 0 h1 headval x" using c(2) by (rule repr_lo_mono) simp
        then have "state_ok (Env_set env ident headval) h1" using ok c(1) by (intro state_ok_set)
        then show ?thesis using c Instr_HEAD by simp
      qed
    qed
  qed
next
  case (Instr_TAIL l src dst)
  show ?thesis
  proof (cases "lookup env src")
    case None
    then show ?thesis using ok Instr_TAIL by (simp add: Env_exists_def throw_def)
  next
    case (Some sv)
    show ?thesis
    proof (cases "type sv = VT_LIST")
      case False
      then show ?thesis
        using ok Instr_TAIL exists_lookup [OF Some] get_const_lookup [OF Some]
        by (simp add: throw_def)
    next
      case True
      from state_ok_lookup [OF ok Some] True obtain xs where xs: "lrepr 0 h (list sv) xs"
        by (auto elim: vrepr_type_cases)
      show ?thesis
      proof (cases xs)
        case Nil
        then have "list sv = None" using xs by simp
        from exec_TAIL_empty [OF Some True this, of l dst pc prog]
        have ex: "execute (Instr_TAIL l src dst) env pc prog h
            = Some (Inr (pc + 1), Env_set env dst (make_list None), h)" .
        have "state_ok (Env_set env dst (make_list None)) h"
          using ok by (rule state_ok_set [where x = "AList []"]) (simp_all add: make_list_def)
        then show ?thesis using ex Instr_TAIL by simp
      next
        case (Cons x xs')
        from exec_TAIL [OF Some True xs [unfolded Cons], of l dst pc prog] obtain newHead h1 where
          c: "prefix h h1" "lrepr (length h) h1 newHead xs'"
            "execute (Instr_TAIL l src dst) env pc prog h
               = Some (Inr (pc + 1), Env_set env dst (make_list newHead), h1)"
          by blast
        have "lrepr 0 h1 newHead xs'" using c(2) by (rule repr_lo_mono) simp
        then have "vrepr 0 h1 (make_list newHead) (AList xs')" by (simp add: make_list_def)
        then have "state_ok (Env_set env dst (make_list newHead)) h1"
          using ok c(1) by (intro state_ok_set)
        then show ?thesis using c Instr_TAIL by simp
      qed
    qed
  qed
next
  case (Instr_ASSIGN l ident val)
  have "state_ok (Env_set env ident v) h" if "type v = VT_INT" for v
    using ok by (rule state_ok_set [where x = "AInt (ival v)"]) (simp_all add: that)
  then show ?thesis
    using ok Instr_ASSIGN
    by (auto simp: throw_def rethrow_def goto_def make_int_def split: sum.splits)
next
  case (Instr_CHS l ident)
  have "state_ok (Env_set env ident v) h" if "type v = VT_INT" for v
    using ok by (rule state_ok_set [where x = "AInt (ival v)"]) (simp_all add: that)
  then show ?thesis
    using ok Instr_CHS
    by (auto simp: throw_def rethrow_def goto_def split: sum.splits)
next
  case (Instr_ADD l a b)
  have "state_ok (Env_set env a v) h" if "type v = VT_INT" for v
    using ok by (rule state_ok_set [where x = "AInt (ival v)"]) (simp_all add: that)
  then show ?thesis
    using ok Instr_ADD
    by (auto simp: throw_def rethrow_def goto_def split: sum.splits)
next
  case (Instr_IF l ident target)
  then show ?thesis
    using ok by (auto simp: throw_def rethrow_def goto_def Let_def split: sum.splits)
next
  case (Instr_HLT l)
  then show ?thesis using ok by (simp add: goto_def)
next
  case (NOP l)
  then show ?thesis using ok by (simp add: goto_def)
qed

lemma run_n_ok:
  "run_n k prog (pc, env, h) = Some (pc', env', h') \<Longrightarrow> state_ok env h \<Longrightarrow>
     state_ok env' h' \<and> prefix h h'"
proof (induction k arbitrary: pc env h)
  case 0
  then show ?case by simp
next
  case (Suc k)
  from Suc.prems(1) obtain nxt env1 h1 where
    ex: "execute (prog ! nat (pc - 1)) env pc prog h = Some (Inr nxt, env1, h1)"
    and rest: "run_n k prog (nxt, env1, h1) = Some (pc', env', h')"
    by (auto split: if_splits option.splits sum.splits prod.splits)
  from execute_ok [OF Suc.prems(2), of "prog ! nat (pc - 1)" pc prog] ex
  have "state_ok env1 h1" "prefix h h1" by auto
  with Suc.IH [OF rest] show ?case by (auto intro: prefix_order.trans)
qed

lemma run_loop_ok:
  assumes "run_loop prog pc env h = Some y"
  shows "state_ok env h \<longrightarrow> state_ok (fst (snd y)) (snd (snd y)) \<and> prefix h (snd (snd y))
           \<and> declared env \<subseteq> declared (fst (snd y))"
proof (rule run_loop.raw_induct [where P = "\<lambda>prog pc env h y.
      state_ok env h \<longrightarrow> state_ok (fst (snd y)) (snd (snd y)) \<and> prefix h (snd (snd y))
           \<and> declared env \<subseteq> declared (fst (snd y))", OF _ assms], goal_cases)
  case (1 run_loop' prog pc env h y)
  show ?case
  proof
    assume ok: "state_ok env h"
    show "state_ok (fst (snd y)) (snd (snd y)) \<and> prefix h (snd (snd y))
           \<and> declared env \<subseteq> declared (fst (snd y))"
    proof (cases "1 \<le> pc \<and> pc \<le> int (length prog)")
      case False
      then show ?thesis using 1(2) ok by (auto split: if_splits)
    next
      case True
      from execute_ok [OF ok, of "prog ! nat (pc - 1)" pc prog] obtain r env1 h1 where
        ex: "execute (prog ! nat (pc - 1)) env pc prog h = Some (r, env1, h1)"
        and ok1: "state_ok env1 h1" and p1: "prefix h h1" by blast
      note d1 = execute_declared [OF ex]
      show ?thesis
      proof (cases r)
        case (Inl e)
        then show ?thesis using 1(2) True ex ok1 p1 d1 by auto
      next
        case (Inr nxt)
        show ?thesis
        proof (cases "nxt = - 1")
          case True
          then show ?thesis using 1(2) \<open>1 \<le> pc \<and> pc \<le> int (length prog)\<close> ex ok1 p1 d1 Inr by auto
        next
          case False
          then have "run_loop' prog nxt env1 h1 = Some y"
            using 1(2) \<open>1 \<le> pc \<and> pc \<le> int (length prog)\<close> ex Inr by auto
          from 1(1) [OF this] ok1
          have "state_ok (fst (snd y)) (snd (snd y))" "prefix h1 (snd (snd y))"
            "declared env1 \<subseteq> declared (fst (snd y))" by auto
          then show ?thesis using p1 d1 by (auto intro: prefix_order.trans)
        qed
      qed
    qed
  qed
qed

section \<open>Rendering a value that denotes \<open>x\<close> gives \<open>render x\<close>\<close>

lemma join_Cons: "join sep (x # xs) = x @ concat (map (\<lambda>y. sep @ y) xs)"
  by (induction xs arbitrary: x) simp_all

lemma ts_value:
  "to_string_rec (ValueToString val) h =
     (if type val = VT_INT then Some (to_string (sint (ival val)))
      else to_string_rec (ListToString (list val)) h)"
  by (subst to_string_rec.simps) simp

lemma ts_list_None: "to_string_rec (ListToString None) h = Some ''[]''"
  by (subst to_string_rec.simps) simp

lemma ts_list_Some:
  "to_string_rec (ListToString (Some a)) h = to_string_rec (ListLoop ''['' True (Some a)) h"
  by (subst to_string_rec.simps) simp

lemma ts_loop_None: "to_string_rec (ListLoop s first None) h = Some (s @ '']'')"
  by (subst to_string_rec.simps) simp

lemma ts_loop_Some:
  "deref h c = Some n \<Longrightarrow> to_string_rec (ValueToString (node_v n)) h = Some e \<Longrightarrow>
   to_string_rec (ListLoop s first (Some c)) h =
     to_string_rec (ListLoop ((if \<not> first then s @ '', '' else s) @ e) False (node_next n)) h"
  by (subst to_string_rec.simps) simp

lemma ts_loop_rest:
  assumes "lrepr lo h cur xs"
    and "\<And>x v lo. x \<in> set xs \<Longrightarrow> vrepr lo h v x \<Longrightarrow> to_string_rec (ValueToString v) h = Some (render x)"
  shows "to_string_rec (ListLoop s False cur) h
           = Some (s @ concat (map (\<lambda>x. '', '' @ render x) xs) @ '']'')"
  using assms
proof (induction xs arbitrary: cur s)
  case Nil
  then show ?case by (simp add: ts_loop_None)
next
  case (Cons x xs)
  from Cons.prems(1) obtain c where c: "cur = Some c" "c < length h"
      "vrepr lo h (node_v (h ! c)) x" "lrepr lo h (node_next (h ! c)) xs"
    by (auto split: option.splits)
  have d: "deref h c = Some (h ! c)" using c(2) by (simp add: deref_def)
  have e: "to_string_rec (ValueToString (node_v (h ! c))) h = Some (render x)"
    using Cons.prems(2) [OF _ c(3)] by simp
  have "to_string_rec (ListLoop ((s @ '', '') @ render x) False (node_next (h ! c))) h
      = Some (((s @ '', '') @ render x) @ concat (map (\<lambda>x. '', '' @ render x) xs) @ '']'')"
    using c(4) Cons.prems(2) by (intro Cons.IH) auto
  then show ?case
    using ts_loop_Some [OF d e, of s False] c(1) by simp
qed

lemma ts_list:
  assumes "lrepr lo h p xs"
    and "\<And>x v lo. x \<in> set xs \<Longrightarrow> vrepr lo h v x \<Longrightarrow> to_string_rec (ValueToString v) h = Some (render x)"
  shows "to_string_rec (ListToString p) h = Some (render (AList xs))"
proof (cases xs)
  case Nil
  then show ?thesis using assms(1) by (simp add: ts_list_None)
next
  case (Cons x xs')
  from assms(1) Cons obtain c where c: "p = Some c" "c < length h"
      "vrepr lo h (node_v (h ! c)) x" "lrepr lo h (node_next (h ! c)) xs'"
    by (auto split: option.splits)
  have d: "deref h c = Some (h ! c)" using c(2) by (simp add: deref_def)
  have e: "to_string_rec (ValueToString (node_v (h ! c))) h = Some (render x)"
    using assms(2) [OF _ c(3)] Cons by simp
  have "to_string_rec (ListLoop (''['' @ render x) False (node_next (h ! c))) h
      = Some ((''['' @ render x) @ concat (map (\<lambda>x. '', '' @ render x) xs') @ '']'')"
    using c(4) assms(2) Cons by (intro ts_loop_rest) auto
  then show ?thesis
    using ts_loop_Some [OF d e, of "''[''" True] c(1) Cons
    by (simp add: ts_list_Some join_Cons comp_def)
qed

lemma value_to_string_rec_correct:
  "vrepr lo h v x \<Longrightarrow> to_string_rec (ValueToString v) h = Some (render x)"
proof (induction x arbitrary: lo v)
  case (AInt i)
  then show ?case by (simp add: ts_value)
next
  case (AList xs)
  then have ty: "type v = VT_LIST" and l: "lrepr lo h (list v) xs" by simp_all
  have "to_string_rec (ListToString (list v)) h = Some (render (AList xs))"
    using l AList.IH by (rule ts_list)
  then show ?case using ty by (simp add: ts_value)
qed

lemma list_to_string_correct:
  "lrepr lo h p xs \<Longrightarrow> list_to_string p h = Some (render (AList xs))"
  unfolding list_to_string_def
  by (rule ts_list) (auto intro: value_to_string_rec_correct)

lemma value_to_string_correct:
  "vrepr lo h v x \<Longrightarrow> value_to_string v h = Some (render x)"
  unfolding value_to_string_def by (rule value_to_string_rec_correct)

section \<open>The report\<close>

lemma print_names_correct:
  assumes "list_all2 (\<lambda>n kx. fst kx = n \<and> (\<exists>v. lookup env n = Some v \<and> vrepr 0 h v (snd kx))) ns binds"
  shows "print_names ns env h acc
           = Some (None, acc @ concat (map (\<lambda>(k, x). k @ '' = '' @ render x @ newline) binds))"
  using assms
proof (induction ns binds arbitrary: acc rule: list_all2_induct)
  case Nil
  then show ?case by simp
next
  case (Cons n ns kx binds)
  obtain k x where kx: "kx = (k, x)" by (cases kx)
  from Cons.hyps(1) kx obtain v where k: "k = n" and v: "lookup env n = Some v" and r: "vrepr 0 h v x"
    by auto
  show ?case
  proof (cases x)
    case (AInt i)
    then have "type v = VT_INT" "ival v = i" using r by simp_all
    then show ?thesis
      using Cons.IH get_const_lookup [OF v] kx k AInt by simp
  next
    case (AList xs)
    then have ty: "type v = VT_LIST" and l: "lrepr 0 h (list v) xs" using r by simp_all
    from list_to_string_correct [OF l] show ?thesis
      using Cons.IH get_const_lookup [OF v] kx k AList ty by simp
  qed
qed

lemma binds_exist:
  "\<forall>kv\<in>set t. \<exists>x. vrepr 0 h (snd kv) x \<Longrightarrow>
     \<exists>binds. list_all2 (\<lambda>kv kx. fst kx = fst kv \<and> vrepr 0 h (snd kv) (snd kx)) t binds"
proof (induction t)
  case Nil
  then show ?case by simp
next
  case (Cons kv t)
  then obtain x binds where "vrepr 0 h (snd kv) x"
    "list_all2 (\<lambda>kv kx. fst kx = fst kv \<and> vrepr 0 h (snd kv) (snd kx)) t binds"
    by auto
  then have "list_all2 (\<lambda>kv kx. fst kx = fst kv \<and> vrepr 0 h (snd kv) (snd kx)) (kv # t) ((fst kv, x) # binds)"
    by simp
  then show ?case by blast
qed

lemma report_of_state:
  assumes ok: "state_ok env h"
  shows "\<exists>binds. map fst binds = map fst (table env)
           \<and> sorted_wrt (<) (map fst binds)
           \<and> list_all2 (\<lambda>kv kx. vrepr 0 h (snd kv) (snd kx)) (table env) binds
           \<and> print_names (sort (map fst (table env))) env h []
               = Some (None, concat (map (\<lambda>(k, x). k @ '' = '' @ render x @ newline) binds))"
proof -
  let ?t = "table env"
  from ok have srt: "sorted_wrt (<) (map fst ?t)"
    and all: "\<forall>kv\<in>set ?t. \<exists>x. vrepr 0 h (snd kv) x"
    by (simp_all add: state_ok_def)
  from srt have dist: "distinct (map fst ?t)" and s: "sorted (map fst ?t)"
    by (simp_all add: strict_sorted_iff)
  from binds_exist [OF all] obtain binds where
    b: "list_all2 (\<lambda>kv kx. fst kx = fst kv \<and> vrepr 0 h (snd kv) (snd kx)) ?t binds" by blast
  have keys: "map fst binds = map fst ?t"
    using b by (induction rule: list_all2_induct) auto
  have "list_all2 (\<lambda>kv kx. fst kx = fst kv
          \<and> (\<exists>v. lookup env (fst kv) = Some v \<and> vrepr 0 h v (snd kx))) ?t binds"
    using b
  proof (rule list.rel_mono_strong)
    fix kv kx
    assume "kv \<in> set ?t" and r: "fst kx = fst kv \<and> vrepr 0 h (snd kv) (snd kx)"
    then have "map_of ?t (fst kv) = Some (snd kv)"
      using dist by (intro map_of_is_SomeI) auto
    then show "fst kx = fst kv \<and> (\<exists>v. lookup env (fst kv) = Some v \<and> vrepr 0 h v (snd kx))"
      using r by (simp add: lookup_def)
  qed
  then have "list_all2 (\<lambda>n kx. fst kx = n \<and> (\<exists>v. lookup env n = Some v \<and> vrepr 0 h v (snd kx)))
      (map fst ?t) binds"
    by (simp add: list_all2_map1)
  from print_names_correct [OF this, of "[]"]
  have "print_names (sort (map fst ?t)) env h []
      = Some (None, concat (map (\<lambda>(k, x). k @ '' = '' @ render x @ newline) binds))"
    using s by (simp add: sorted_sort_id)
  moreover have "list_all2 (\<lambda>kv kx. vrepr 0 h (snd kv) (snd kx)) ?t binds"
    using b by (rule list.rel_mono_strong) simp
  ultimately show ?thesis using keys srt by auto
qed

section \<open>Messages and line numbers\<close>

lemma digit_char_set: "d < 10 \<Longrightarrow> digit_char d \<in> set ''0123456789''"
proof -
  assume "d < 10"
  then have "d \<in> {0, 1, 2, 3, 4, 5, 6, 7, 8, 9}" by auto
  then show ?thesis by (auto simp: digit_char_def)
qed

lemma digits10_set: "set (digits10 n) \<subseteq> set ''0123456789''"
proof (induction n rule: digits10.induct)
  case (1 n)
  show ?case
  proof (cases "n < 10")
    case True
    then show ?thesis using digit_char_set [of n] by (subst digits10.simps) simp
  next
    case False
    have "n mod 10 < 10" by simp
    from digit_char_set [OF this] 1 [OF False] False show ?thesis
      by (subst digits10.simps) auto
  qed
qed

lemma to_string_one_line: "CHR 0x0A \<notin> set (to_string n)"
  using digits10_set [of "nat n"] digits10_set [of "nat (- n)"]
  by (auto simp: to_string_def)

lemma at_line_one_line: "CHR 0x0A \<notin> set msg \<Longrightarrow> CHR 0x0A \<notin> set (at_line l msg)"
  using to_string_one_line [of l] by (simp add: at_line_def)

lemma get_const_exists_simp:
  "Env_exists env k \<Longrightarrow> Env_get_const env k = Inr (the (lookup env k))"
  by (auto simp: Env_exists_def Env_get_const_def)

lemma get_exists_simp:
  "Env_exists env k \<Longrightarrow> Env_get env k = Inr (the (lookup env k))"
  by (simp add: Env_get_def get_const_exists_simp)

lemma at_line_ex: "\<exists>reason. at_line l msg = at_line l reason"
  by (rule exI) (rule refl)

lemma execute_error_what:
  assumes ex: "execute ins env pc prog h = Some (Inl e, env', h')"
    and ops: "\<forall>s\<in>set (operands ins). CHR 0x0A \<notin> set s"
  shows "(\<exists>reason. what e = at_line (lineNo ins) reason) \<and> CHR 0x0A \<notin> set (what e)"
proof (cases ins)
  case (Instr_INTEGER l ident)
  then show ?thesis
    using ex ops by (auto simp: throw_def goto_def at_line_one_line at_line_ex get_const_exists_simp get_exists_simp split: if_splits)
next
  case (Instr_LIST l ident)
  then show ?thesis
    using ex ops by (auto simp: throw_def goto_def at_line_one_line at_line_ex get_const_exists_simp get_exists_simp split: if_splits)
next
  case (Instr_MERGE l frm tolist)
  then show ?thesis
    using ex ops
    by (auto simp: throw_def goto_def at_line_one_line at_line_ex get_const_exists_simp get_exists_simp make_shared_def
          split: if_splits option.splits)
next
  case (Instr_COPY l src dst)
  then show ?thesis
    using ex ops
    by (auto simp: throw_def goto_def at_line_one_line at_line_ex get_const_exists_simp get_exists_simp split: if_splits option.splits)
next
  case (Instr_HEAD l listid ident)
  then show ?thesis
    using ex ops
    by (auto simp: throw_def goto_def at_line_one_line at_line_ex get_const_exists_simp get_exists_simp split: if_splits option.splits)
next
  case (Instr_TAIL l src dst)
  then show ?thesis
    using ex ops
    by (auto simp: throw_def goto_def at_line_one_line at_line_ex get_const_exists_simp get_exists_simp split: if_splits option.splits)
next
  case (Instr_ASSIGN l ident val)
  then show ?thesis
    using ex ops by (auto simp: throw_def goto_def at_line_one_line at_line_ex get_const_exists_simp get_exists_simp split: if_splits)
next
  case (Instr_CHS l ident)
  then show ?thesis
    using ex ops by (auto simp: throw_def goto_def at_line_one_line at_line_ex get_const_exists_simp get_exists_simp split: if_splits)
next
  case (Instr_ADD l a b)
  then show ?thesis
    using ex ops by (auto simp: throw_def goto_def at_line_one_line at_line_ex get_const_exists_simp get_exists_simp split: if_splits)
next
  case (Instr_IF l ident target)
  then show ?thesis
    using ex ops
    by (auto simp: throw_def goto_def Let_def at_line_one_line at_line_ex get_const_exists_simp get_exists_simp to_string_one_line split: if_splits)
next
  case (Instr_HLT l)
  then show ?thesis using ex by (simp add: goto_def)
next
  case (NOP l)
  then show ?thesis using ex by (simp add: goto_def)
qed

section \<open>What the loader delivers\<close>

lemma isspace_newline: "isspace (CHR 0x0A)"
  by (simp add: isspace_def)

lemma tokenize_from_no_space:
  "\<forall>c\<in>set w. \<not> isspace c \<Longrightarrow> t \<in> set (tokenize_from w cs) \<Longrightarrow> \<forall>c\<in>set t. \<not> isspace c"
proof (induction cs arbitrary: w)
  case Nil
  then show ?case by (simp split: if_splits)
next
  case (Cons c cs)
  show ?case
  proof (cases "isspace c")
    case True
    then have "t = w \<or> t \<in> set (tokenize_from [] cs)"
      using Cons.prems(2) by (simp split: if_splits)
    then show ?thesis
      using Cons.prems(1) Cons.IH [of "[]"] by auto
  next
    case False
    then have "t \<in> set (tokenize_from (w @ [c]) cs)"
      using Cons.prems(2) by simp
    moreover have "\<forall>d\<in>set (w @ [c]). \<not> isspace d" using Cons.prems(1) False by simp
    ultimately show ?thesis using Cons.IH by blast
  qed
qed

lemma token_one_line: "t \<in> set (tokenize line) \<Longrightarrow> CHR 0x0A \<notin> set t"
proof
  assume t: "t \<in> set (tokenize line)" and n: "CHR 0x0A \<in> set t"
  have "\<forall>c\<in>set t. \<not> isspace c"
    using t unfolding tokenize_def by (rule tokenize_from_no_space [of "[]", rotated]) simp
  with n isspace_newline show False by blast
qed

lemma parse_line_result:
  assumes "parse_line line n = Inr (Some ins)"
  shows "lineNo ins = n \<and> set (operands ins) \<subseteq> set (tokenize line)"
proof -
  have m: "t ! 1 \<in> set t" "t ! Suc 0 \<in> set t" if "length t = 2 \<or> length t = 3" for t :: "string list"
    using that by (auto intro: nth_mem)
  have m2: "t ! 2 \<in> set t" if "length t = 3" for t :: "string list"
    using that by (auto intro: nth_mem)
  show ?thesis
    using assms m [of "tokenize line"] m2 [of "tokenize line"]
    unfolding parse_line_def Let_def parse_fail_def
    by (auto split: if_splits prod.splits)
qed

lemma load_lines_good:
  assumes "load_lines ls n acc = Inr prog"
    and "n = int (length acc)"
    and "\<forall>i<length acc. \<forall>ins. acc ! i = Some ins \<longrightarrow>
           lineNo ins = int i + 1 \<and> (\<forall>s\<in>set (operands ins). CHR 0x0A \<notin> set s)"
  shows "\<forall>i<length prog. \<forall>ins. prog ! i = Some ins \<longrightarrow>
           lineNo ins = int i + 1 \<and> (\<forall>s\<in>set (operands ins). CHR 0x0A \<notin> set s)"
  using assms
proof (induction ls arbitrary: n acc)
  case Nil
  then show ?case by simp
next
  case (Cons line rest)
  from Cons.prems(1) obtain p where
    rest: "load_lines rest (n + 1) (acc @ [p]) = Inr prog"
    and p: "p = None \<or> (\<exists>trimmed. parse_line trimmed (n + 1) = Inr p)"
    by (auto split: option.splits sum.splits)
  have good: "lineNo ins = n + 1 \<and> (\<forall>s\<in>set (operands ins). CHR 0x0A \<notin> set s)" if "p = Some ins" for ins
  proof -
    from p that obtain trimmed where "parse_line trimmed (n + 1) = Inr (Some ins)" by auto
    from parse_line_result [OF this] show ?thesis using token_one_line by blast
  qed
  show ?case
  proof (rule Cons.IH [OF rest])
    show "n + 1 = int (length (acc @ [p]))" using Cons.prems(2) by simp
    show "\<forall>i<length (acc @ [p]). \<forall>ins. (acc @ [p]) ! i = Some ins \<longrightarrow>
           lineNo ins = int i + 1 \<and> (\<forall>s\<in>set (operands ins). CHR 0x0A \<notin> set s)"
      using Cons.prems(2,3) good by (auto simp: nth_append less_Suc_eq)
  qed
qed

lemma load_program_loaded: "load_program fs filename = Inr prog \<Longrightarrow> loaded prog"
proof -
  assume "load_program fs filename = Inr prog"
  then obtain contents raw where
    l: "load_lines (getlines_from [] contents) 0 [] = Inr raw" and f: "prog = fill_nops raw"
    by (auto simp: load_program_def split: option.splits sum.splits)
  from load_lines_good [OF l] have
    "\<forall>i<length raw. \<forall>ins. raw ! i = Some ins \<longrightarrow>
           lineNo ins = int i + 1 \<and> (\<forall>s\<in>set (operands ins). CHR 0x0A \<notin> set s)"
    by simp
  then show "loaded prog"
    unfolding loaded_def f fill_nops_def
    by (auto split: option.splits)
qed

section \<open>A run that fails\<close>

lemma run_loop_fails:
  assumes "run_n k prog (1, env0, h0) = Some (pc, env, h)"
    and "1 \<le> pc" and "pc \<le> int (length prog)"
    and "execute (prog ! nat (pc - 1)) env pc prog h = Some (Inl e, env', h')"
  shows "run_loop prog 1 env0 h0 = Some (Some e, env', h')"
proof -
  have "run_loop prog pc env h = Some (Some e, env', h')"
    using assms(2-4) by (subst run_loop_unfold) simp
  then show ?thesis using run_n_loop [OF assms(1)] by simp
qed

section \<open>The copy loops never change a cell that exists\<close>

lemma store_ptr_frame:
  assumes st: "store_ptr pp (Some (length h2)) head (h2 @ [nd]) = (head', h4)"
    and pl: "\<forall>p. pp = Some p \<longrightarrow> p < length h" and le: "length h \<le> length h2"
  shows "length h4 = Suc (length h2)" and "\<forall>a<length h. Some a \<noteq> pp \<longrightarrow> h4 ! a = h2 ! a"
  using assms
  by (auto simp: store_ptr_def nth_append nth_list_update split: option.splits)

lemma deep_copy_rec_grows:
  assumes "deep_copy_rec fr h = Some y"
  shows "(case fr of
            Copy val \<Rightarrow> prefix h (snd y)
          | Loop head pp cur \<Rightarrow>
              (\<forall>p. pp = Some p \<longrightarrow> p < length h) \<longrightarrow>
                length h \<le> length (snd y) \<and> (\<forall>a<length h. Some a \<noteq> pp \<longrightarrow> snd y ! a = h ! a))"
proof (rule deep_copy_rec.raw_induct [where P = "\<lambda>fr h y.
      (case fr of
            Copy val \<Rightarrow> prefix h (snd y)
          | Loop head pp cur \<Rightarrow>
              (\<forall>p. pp = Some p \<longrightarrow> p < length h) \<longrightarrow>
                length h \<le> length (snd y) \<and> (\<forall>a<length h. Some a \<noteq> pp \<longrightarrow> snd y ! a = h ! a))",
      OF _ assms], goal_cases)
  case (1 rec fr h y)
  note IH = 1(1)
  have IHc: "prefix g (snd z)" if "rec (Copy v) g = Some z" for v g z
    using IH [OF that] by simp
  show ?case
  proof (cases fr)
    case (Copy val)
    show ?thesis
    proof (cases "type val = VT_INT \<or> list val = None")
      case True
      then show ?thesis using 1(2) Copy by (auto split: if_splits)
    next
      case False
      then have "rec (Loop None None (list val)) h = Some y" using 1(2) Copy by auto
      from IH [OF this] have "length h \<le> length (snd y)" "\<forall>a<length h. snd y ! a = h ! a"
        by simp_all
      then have "prefix h (snd y)" by (rule prefixI_nth)
      then show ?thesis using Copy by simp
    qed
  next
    case (Loop head pp cur)
    show ?thesis
    proof (cases cur)
      case None
      then show ?thesis using 1(2) Loop by auto
    next
      case (Some c)
      from 1(2) Loop Some obtain n vcopy0 h1 vcopy h2 where
        n: "deref h c = Some n"
        and e0: "(if type (node_v n) = VT_INT then Some (make_int (ival (node_v n)), h)
                  else (case list (node_v n) of
                          None \<Rightarrow> Some (make_list None, h)
                        | Some e \<Rightarrow> deref h e \<bind> (\<lambda>en. rec (Copy (node_v en)) h \<bind>
                                       (\<lambda>(tmp, h'). Some (make_list (list tmp), h'))))) = Some (vcopy0, h1)"
        and e1: "(if type (node_v n) = VT_LIST then rec (Copy (node_v n)) (snd (vcopy0, h1))
                  else Some (fst (vcopy0, h1), snd (vcopy0, h1))) = Some (vcopy, h2)"
        and rest: "rec (Loop (fst (store_ptr pp (Some (length h2)) head
                                 (h2 @ [\<lparr>node_v = vcopy, node_next = None\<rparr>])))
                         (Some (length h2)) (node_next n))
                    (snd (store_ptr pp (Some (length h2)) head
                                 (h2 @ [\<lparr>node_v = vcopy, node_next = None\<rparr>]))) = Some y"
        by (simp add: bind_eq_Some_conv make_shared_def split_beta) blast
      define head' where "head' = fst (store_ptr pp (Some (length h2)) head
                                 (h2 @ [\<lparr>node_v = vcopy, node_next = None\<rparr>]))"
      define h4 where "h4 = snd (store_ptr pp (Some (length h2)) head
                                 (h2 @ [\<lparr>node_v = vcopy, node_next = None\<rparr>]))"
      have st: "store_ptr pp (Some (length h2)) head (h2 @ [\<lparr>node_v = vcopy, node_next = None\<rparr>]) = (head', h4)"
        by (simp add: head'_def h4_def)
      have rest': "rec (Loop head' (Some (length h2)) (node_next n)) h4 = Some y"
        using rest by (simp add: head'_def h4_def)
      have p1: "prefix h h1"
        using e0 IHc
        by (auto simp: bind_eq_Some_conv split: if_splits option.splits)
      have p2: "prefix h1 h2"
        using e1 IHc by (auto split: if_splits)
      have le: "length h \<le> length h2"
        using prefix_length [OF p1] prefix_length [OF p2] by simp
      have old: "h2 ! a = h ! a" if "a < length h" for a
        using that prefix_nth [OF p1 that] prefix_nth [OF p2, of a] prefix_length [OF p1] by simp
      show ?thesis
      proof -
        have "length h \<le> length (snd y) \<and> (\<forall>a<length h. Some a \<noteq> pp \<longrightarrow> snd y ! a = h ! a)"
          if pl: "\<forall>p. pp = Some p \<longrightarrow> p < length h"
        proof -
          note f = store_ptr_frame [OF st pl le]
          from IH [OF rest'] f(1) have
            l': "length h4 \<le> length (snd y)"
            and f': "\<forall>a<length h4. a \<noteq> length h2 \<longrightarrow> snd y ! a = h4 ! a"
            by simp_all
          have "snd y ! a = h ! a" if a: "a < length h" "Some a \<noteq> pp" for a
          proof -
            have "a < length h4" "a \<noteq> length h2" using a(1) le f(1) by simp_all
            then have "snd y ! a = h4 ! a" using f' by simp
            also have "\<dots> = h2 ! a" using f(2) a by simp
            also have "\<dots> = h ! a" using old a(1) by simp
            finally show ?thesis .
          qed
          then show ?thesis using l' f(1) le by auto
        qed
        then show ?thesis using Loop by simp
      qed
    qed
  qed
qed

lemma deep_copy_grows: "deep_copy val h = Some (val', h') \<Longrightarrow> prefix h h'"
  using deep_copy_rec_grows [of "Copy val" h "(val', h')"] by (simp add: deep_copy_def)

lemma execute_error_grows:
  "execute ins env pc prog h = Some (Inl e, env', h') \<Longrightarrow> prefix h h'"
  by (cases ins)
     (auto simp: throw_def rethrow_def goto_def Let_def dest: deep_copy_grows
           split: if_splits sum.splits option.splits prod.splits)

lemma state_repr_prefix: "state_repr env h vals \<Longrightarrow> prefix h h' \<Longrightarrow> state_repr env h' vals"
proof -
  assume r: "state_repr env h vals" and p: "prefix h h'"
  have "list_all2 (\<lambda>kv x. vrepr 0 h' (snd kv) x) (table env) vals"
  proof (rule list.rel_mono_strong)
    show "list_all2 (\<lambda>kv x. vrepr 0 h (snd kv) x) (table env) vals"
      using r by (simp add: state_repr_def)
    show "vrepr 0 h' (snd kv) x" if "vrepr 0 h (snd kv) x" for kv x
      using that p by (rule repr_prefix)
  qed
  then show ?thesis using r by (simp add: state_repr_def)
qed

section \<open>The claims about single instructions\<close>

text \<open>
  C2, as the code has it. With \<open>ident\<close> bound to \<open>v\<close>, \<open>IF ident target\<close> looks at the range
  of the target only when it jumps: if \<open>v\<close> is the integer \<open>0\<close> or the empty list, it goes
  to line \<open>target\<close> when \<open>1 \<le> target \<le> length prog\<close> and fails with \<open>JumpOutOfRange\<close>
  otherwise; for every other \<open>v\<close> it goes to the next line, whatever the target is. The
  environment and the heap are unchanged in all three cases.
\<close>

theorem if_jumps_when_falsy:
  assumes "lookup env ident = Some v"
  shows "execute (Instr_IF l ident target) env pc prog h =
     (if vrepr 0 h v (AInt 0) \<or> vrepr 0 h v (AList [])
      then (if 1 \<le> target \<and> target \<le> int (length prog)
            then Some (Inr target, env, h)
            else Some (Inl (RuntimeError JumpOutOfRange
                         (at_line l (''IF jump out of range: '' @ to_string target))), env, h))
      else Some (Inr (pc + 1), env, h))"
proof -
  have "type v = VT_LIST \<longleftrightarrow> type v \<noteq> VT_INT" by (cases "type v") simp_all
  then show ?thesis
    using exists_lookup [OF assms] get_const_lookup [OF assms]
    by (auto simp: throw_def goto_def)
qed

theorem if_jumps_when_falsy_witness:
  "execute (Instr_IF 3 ''x'' 1) \<lparr>table = [(''x'', make_list None)]\<rparr> 3 [NOP 1, NOP 2, Instr_IF 3 ''x'' 1] []
     = Some (Inr 1, \<lparr>table = [(''x'', make_list None)]\<rparr>, [])"
proof -
  have "lookup \<lparr>table = [(''x'', make_list None)]\<rparr> ''x'' = Some (make_list None)"
    by (simp add: lookup_def)
  from if_jumps_when_falsy [OF this, of 3 1 3 "[NOP 1, NOP 2, Instr_IF 3 ''x'' 1]" "[]"]
  show ?thesis by (simp add: make_list_def)
qed

text \<open>
  C2 as stated fails: in a program of one line, \<open>IF x 99\<close> with \<open>x\<close> bound to the integer
  \<open>1\<close> has its target outside the program and yet does not fail; it falls through to
  line 2.
\<close>

theorem if_out_of_range_counterexample:
  "int (length [Instr_IF 1 ''x'' 99]) < 99
   \<and> execute (Instr_IF 1 ''x'' 99) \<lparr>table = [(''x'', make_int 1)]\<rparr> 1 [Instr_IF 1 ''x'' 99] []
       = Some (Inr 2, \<lparr>table = [(''x'', make_int 1)]\<rparr>, [])"
  by code_simp

text \<open>
  C7. \<open>ADD a b\<close> with \<open>a\<close> and \<open>b\<close> bound to integers goes to the next line and leaves
  \<open>a\<close> bound to an integer whose value is the sum of the two values modulo \<open>2^64\<close>, read
  as a signed number; every other identifier, in particular \<open>b\<close> when it is not \<open>a\<close>,
  keeps its binding, and the heap is unchanged. It fails with \<open>Undefined\<close> when \<open>a\<close> or
  \<open>b\<close> is not declared and with \<open>TypeMismatch\<close> when one of them is bound to a list.
\<close>

theorem add_wraps:
  "(lookup env a = Some va \<and> lookup env b = Some vb \<and> type va = VT_INT \<and> type vb = VT_INT \<longrightarrow>
      (\<exists>env' r. execute (Instr_ADD l a b) env pc prog h = Some (Inr (pc + 1), env', h)
         \<and> lookup env' a = Some r \<and> vrepr 0 h r (AInt (ival va + ival vb))
         \<and> sint (ival r) = signed_take_bit 63 (sint (ival va) + sint (ival vb))
         \<and> (\<forall>k. k \<noteq> a \<longrightarrow> lookup env' k = lookup env k)
         \<and> (a \<noteq> b \<longrightarrow> lookup env' b = Some vb)))
   \<and> (a \<notin> declared env \<or> b \<notin> declared env \<longrightarrow>
      (\<exists>msg. execute (Instr_ADD l a b) env pc prog h = Some (Inl (RuntimeError Undefined msg), env, h)))
   \<and> (lookup env a = Some va \<and> lookup env b = Some vb \<and> (type va = VT_LIST \<or> type vb = VT_LIST) \<longrightarrow>
      (\<exists>msg. execute (Instr_ADD l a b) env pc prog h = Some (Inl (RuntimeError TypeMismatch msg), env, h)))"
proof (intro conjI impI)
  assume A: "lookup env a = Some va \<and> lookup env b = Some vb \<and> type va = VT_INT \<and> type vb = VT_INT"
  let ?r = "va\<lparr>ival := ival va + ival vb\<rparr>"
  have ex: "execute (Instr_ADD l a b) env pc prog h = Some (Inr (pc + 1), Env_set env a ?r, h)"
    using A by (simp add: exists_lookup get_lookup goto_def)
  have "sint (ival ?r) = signed_take_bit 63 (sint (ival va) + sint (ival vb))"
    by (simp add: sint_word_ariths)
  then show "\<exists>env' r. execute (Instr_ADD l a b) env pc prog h = Some (Inr (pc + 1), env', h)
         \<and> lookup env' a = Some r \<and> vrepr 0 h r (AInt (ival va + ival vb))
         \<and> sint (ival r) = signed_take_bit 63 (sint (ival va) + sint (ival vb))
         \<and> (\<forall>k. k \<noteq> a \<longrightarrow> lookup env' k = lookup env k)
         \<and> (a \<noteq> b \<longrightarrow> lookup env' b = Some vb)"
    using ex A by (intro exI [of _ "Env_set env a ?r"] exI [of _ ?r]) (simp add: lookup_set)
next
  assume "a \<notin> declared env \<or> b \<notin> declared env"
  then show "\<exists>msg. execute (Instr_ADD l a b) env pc prog h = Some (Inl (RuntimeError Undefined msg), env, h)"
    by (auto simp: exists_declared throw_def)
next
  assume A: "lookup env a = Some va \<and> lookup env b = Some vb \<and> (type va = VT_LIST \<or> type vb = VT_LIST)"
  then show "\<exists>msg. execute (Instr_ADD l a b) env pc prog h = Some (Inl (RuntimeError TypeMismatch msg), env, h)"
    by (auto simp: exists_lookup get_lookup throw_def)
qed

theorem add_wraps_witness:
  "\<exists>env'. execute (Instr_ADD 3 ''x'' ''y'')
       \<lparr>table = [(''x'', make_int 9223372036854775807), (''y'', make_int 1)]\<rparr> 3 [] []
         = Some (Inr 4, env', [])
     \<and> map_option (\<lambda>r. sint (ival r)) (lookup env' ''x'') = Some (- 9223372036854775808)
     \<and> lookup env' ''y'' = Some (make_int 1)"
proof -
  let ?env = "\<lparr>table = [(''x'', make_int 9223372036854775807), (''y'', make_int 1)]\<rparr>"
  have "lookup ?env ''x'' = Some (make_int 9223372036854775807)
      \<and> lookup ?env ''y'' = Some (make_int 1)
      \<and> type (make_int 9223372036854775807) = VT_INT \<and> type (make_int 1) = VT_INT"
    by (simp add: lookup_def make_int_def)
  with add_wraps [of ?env "''x''" "make_int 9223372036854775807" "''y''" "make_int 1" 3 3 "[]" "[]"]
  obtain env' r where
    "execute (Instr_ADD 3 ''x'' ''y'') ?env 3 [] [] = Some (Inr 4, env', [])"
    "lookup env' ''x'' = Some r"
    "sint (ival r) = signed_take_bit 63 (sint (ival (make_int 9223372036854775807)) + sint (ival (make_int 1)))"
    "lookup env' ''y'' = Some (make_int 1)"
    by auto
  moreover have "signed_take_bit 63 (sint (ival (make_int 9223372036854775807)) + sint (ival (make_int 1)))
      = (- 9223372036854775808 :: int)"
    by (simp add: make_int_def signed_take_bit_eq_take_bit_minus)
  ultimately show ?thesis by auto
qed

text \<open>
  C8. \<open>INTEGER ident\<close> fails with \<open>AlreadyDeclared\<close>, leaving the environment as it is,
  exactly when \<open>ident\<close> is declared, and otherwise goes to the next line with \<open>ident\<close>
  bound to the integer \<open>0\<close> and every other binding as before; \<open>LIST ident\<close> does the
  same with the empty list. The program \<open>INTEGER x; INTEGER x\<close> stops at its second line
  with that error, \<open>x\<close> still bound to \<open>0\<close> by the first.
\<close>

theorem declare_once:
  "execute (Instr_INTEGER l ident) env pc prog h =
     (if ident \<in> declared env
      then Some (Inl (RuntimeError AlreadyDeclared
                   (at_line l (''Identifier already declared: '' @ ident))), env, h)
      else Some (Inr (pc + 1), Env_set env ident (make_int 0), h))
   \<and> execute (Instr_LIST l ident) env pc prog h =
     (if ident \<in> declared env
      then Some (Inl (RuntimeError AlreadyDeclared
                   (at_line l (''Identifier already declared: '' @ ident))), env, h)
      else Some (Inr (pc + 1), Env_set env ident (make_list None), h))
   \<and> lookup (Env_set env ident val) k = (if k = ident then Some val else lookup env k)
   \<and> vrepr 0 h (make_int 0) (AInt 0) \<and> vrepr 0 h (make_list None) (AList [])
   \<and> run_loop [Instr_INTEGER 1 ''x'', Instr_INTEGER 2 ''x''] 1 \<lparr>table = []\<rparr> [] =
       Some (Some (RuntimeError AlreadyDeclared ''Line 2: Identifier already declared: x''),
             \<lparr>table = [(''x'', make_int 0)]\<rparr>, [])"
proof -
  have "run_loop [Instr_INTEGER 1 ''x'', Instr_INTEGER 2 ''x''] 1 \<lparr>table = []\<rparr> [] =
       Some (Some (RuntimeError AlreadyDeclared ''Line 2: Identifier already declared: x''),
             \<lparr>table = [(''x'', make_int 0)]\<rparr>, [])"
    by code_simp
  then show ?thesis
    by (simp add: exists_declared throw_def goto_def lookup_set make_int_def make_list_def)
qed

theorem declare_once_witness:
  "execute (Instr_LIST 2 ''l'') \<lparr>table = [(''a'', make_int 0)]\<rparr> 2 [] []
     = Some (Inr 3, \<lparr>table = [(''a'', make_int 0), (''l'', make_list None)]\<rparr>, [])
   \<and> execute (Instr_INTEGER 3 ''a'') \<lparr>table = [(''a'', make_int 0)]\<rparr> 3 [] []
     = Some (Inl (RuntimeError AlreadyDeclared ''Line 3: Identifier already declared: a''),
             \<lparr>table = [(''a'', make_int 0)]\<rparr>, [])"
proof -
  have d: "declared \<lparr>table = [(''a'', make_int 0)]\<rparr> = {''a''}"
    by (simp add: declared_def)
  have s: "Env_set \<lparr>table = [(''a'', make_int 0)]\<rparr> ''l'' (make_list None)
      = \<lparr>table = [(''a'', make_int 0), (''l'', make_list None)]\<rparr>"
    by code_simp
  have m: "at_line 3 ''Identifier already declared: a'' = ''Line 3: Identifier already declared: a''"
    by code_simp
  show ?thesis
    using declare_once [of 2 "''l''" "\<lparr>table = [(''a'', make_int 0)]\<rparr>" 2 "[]" "[]"]
      declare_once [of 3 "''a''" "\<lparr>table = [(''a'', make_int 0)]\<rparr>" 3 "[]" "[]"]
    by (simp add: d s m del: execute.simps)
qed

text \<open>
  C10. An instruction that throws leaves the environment exactly as it found it: in
  \<open>execute\<close> every \<open>throw\<close> comes before the first \<open>Env::set\<close> and before the first write
  through a reference into the table. No cell of the heap is changed either: the heap
  after the throw starts with the heap before it, and is equal to it unless the
  instruction is a \<open>MERGE\<close> (which copies its source before it finds that the target is
  not a list, and so may have added cells). Hence every binding is still bound to the
  same value, and that value denotes exactly what it denoted before; a well-formed
  state stays well-formed with the same denotations.
\<close>

theorem error_atomicity:
  "execute ins env pc prog h = Some (Inl e, env', h') \<longrightarrow>
      env' = env \<and> prefix h h'
      \<and> ((\<forall>l a b. ins \<noteq> Instr_MERGE l a b) \<longrightarrow> h' = h)
      \<and> (\<forall>k v x. lookup env k = Some v \<and> vrepr 0 h v x \<longrightarrow>
            lookup env' k = Some v \<and> vrepr 0 h' v x)
      \<and> (state_repr env h vals \<longrightarrow> state_repr env' h' vals)"
proof
  assume ex: "execute ins env pc prog h = Some (Inl e, env', h')"
  have env: "env' = env" using ex by (rule execute_error_env)
  have p: "prefix h h'" using ex by (rule execute_error_grows)
  have "lookup env' k = Some v \<and> vrepr 0 h' v x" if "lookup env k = Some v \<and> vrepr 0 h v x" for k v x
    using that env p by (auto intro: repr_prefix)
  moreover have "state_repr env' h' vals" if "state_repr env h vals"
    using state_repr_prefix [OF that p] env by simp
  ultimately show "env' = env \<and> prefix h h'
      \<and> ((\<forall>l a b. ins \<noteq> Instr_MERGE l a b) \<longrightarrow> h' = h)
      \<and> (\<forall>k v x. lookup env k = Some v \<and> vrepr 0 h v x \<longrightarrow>
            lookup env' k = Some v \<and> vrepr 0 h' v x)
      \<and> (state_repr env h vals \<longrightarrow> state_repr env' h' vals)"
    using env p execute_error_heap [OF ex] by blast
qed

text \<open>
  \<open>MERGE l a\<close> with \<open>l = [2, 1]\<close> and \<open>a\<close> an integer fails with \<open>NotAList\<close> after it has
  copied \<open>l\<close>: the environment is the same, the two cells of the heap are the first two
  cells of the new heap, and \<open>l\<close> still denotes \<open>[2, 1]\<close>. A failing \<open>HEAD\<close> on an empty
  list leaves the heap as it is.
\<close>

theorem error_atomicity_witness:
  "(\<exists>e h'. execute (Instr_MERGE 3 ''l'' ''a'')
        \<lparr>table = [(''a'', make_int 5), (''l'', make_list (Some 1))]\<rparr> 3 []
        [\<lparr>node_v = make_int 1, node_next = None\<rparr>, \<lparr>node_v = make_int 2, node_next = Some 0\<rparr>]
       = Some (Inl e, \<lparr>table = [(''a'', make_int 5), (''l'', make_list (Some 1))]\<rparr>, h')
     \<and> kind e = NotAList
     \<and> prefix [\<lparr>node_v = make_int 1, node_next = None\<rparr>, \<lparr>node_v = make_int 2, node_next = Some 0\<rparr>] h'
     \<and> vrepr 0 h' (make_list (Some 1)) (AList [AInt 2, AInt 1])
     \<and> state_repr \<lparr>table = [(''a'', make_int 5), (''l'', make_list (Some 1))]\<rparr> h'
           [AInt 5, AList [AInt 2, AInt 1]])
   \<and> execute (Instr_HEAD 4 ''e'' ''x'') \<lparr>table = [(''e'', make_list None)]\<rparr> 4 []
        [\<lparr>node_v = make_int 1, node_next = None\<rparr>]
       = Some (Inl (RuntimeError EmptyList ''Line 4: HEAD on empty list: e''),
               \<lparr>table = [(''e'', make_list None)]\<rparr>, [\<lparr>node_v = make_int 1, node_next = None\<rparr>])"
proof -
  let ?env = "\<lparr>table = [(''a'', make_int 5), (''l'', make_list (Some 1))]\<rparr>"
  let ?h = "[\<lparr>node_v = make_int 1, node_next = None\<rparr>, \<lparr>node_v = make_int 2, node_next = Some 0\<rparr>]"
  let ?e = "RuntimeError NotAList ''Line 3: MERGE target is not a list: a''"
  obtain env' h' where ex: "execute (Instr_MERGE 3 ''l'' ''a'') ?env 3 [] ?h = Some (Inl ?e, env', h')"
  proof -
    have "map_option fst (execute (Instr_MERGE 3 ''l'' ''a'') ?env 3 [] ?h) = Some (Inl ?e)"
      by code_simp
    then show ?thesis using that by (cases "execute (Instr_MERGE 3 ''l'' ''a'') ?env 3 [] ?h") auto
  qed
  have r: "state_repr ?env ?h [AInt 5, AList [AInt 2, AInt 1]]"
    by (simp add: state_repr_def make_int_def make_list_def less_char_def)
  have l: "lookup ?env ''l'' = Some (make_list (Some 1))
      \<and> vrepr 0 ?h (make_list (Some 1)) (AList [AInt 2, AInt 1])"
    by (simp add: lookup_def make_int_def make_list_def)
  from error_atomicity [THEN mp, OF ex, of "[AInt 5, AList [AInt 2, AInt 1]]"]
  have "env' = ?env" and "prefix ?h h'"
    and al: "\<forall>k v x. lookup ?env k = Some v \<and> vrepr 0 ?h v x \<longrightarrow>
            lookup env' k = Some v \<and> vrepr 0 h' v x"
    and sr: "state_repr ?env ?h [AInt 5, AList [AInt 2, AInt 1]]
            \<longrightarrow> state_repr env' h' [AInt 5, AList [AInt 2, AInt 1]]"
    by blast+
  moreover from al l have "vrepr 0 h' (make_list (Some 1)) (AList [AInt 2, AInt 1])" by blast
  moreover from sr r have "state_repr env' h' [AInt 5, AList [AInt 2, AInt 1]]" by blast
  ultimately have first: "\<exists>e h'. execute (Instr_MERGE 3 ''l'' ''a'') ?env 3 [] ?h = Some (Inl e, ?env, h')
     \<and> kind e = NotAList \<and> prefix ?h h'
     \<and> vrepr 0 h' (make_list (Some 1)) (AList [AInt 2, AInt 1])
     \<and> state_repr ?env h' [AInt 5, AList [AInt 2, AInt 1]]"
    using ex by (intro exI [of _ ?e] exI [of _ h']) (simp del: execute.simps vrepr.simps)
  let ?env2 = "\<lparr>table = [(''e'', make_list None)]\<rparr>"
  let ?h2 = "[\<lparr>node_v = make_int 1, node_next = None\<rparr>]"
  let ?e2 = "RuntimeError EmptyList ''Line 4: HEAD on empty list: e''"
  obtain env2 h2 where e2: "execute (Instr_HEAD 4 ''e'' ''x'') ?env2 4 [] ?h2 = Some (Inl ?e2, env2, h2)"
  proof -
    have "map_option fst (execute (Instr_HEAD 4 ''e'' ''x'') ?env2 4 [] ?h2) = Some (Inl ?e2)"
      by code_simp
    then show ?thesis using that by (cases "execute (Instr_HEAD 4 ''e'' ''x'') ?env2 4 [] ?h2") auto
  qed
  have "\<forall>l a b. Instr_HEAD 4 ''e'' ''x'' \<noteq> Instr_MERGE l a b" by simp
  with error_atomicity [THEN mp, OF e2, of "[]"]
  have "env2 = ?env2" "h2 = ?h2"
    by blast+
  with e2 have second: "execute (Instr_HEAD 4 ''e'' ''x'') ?env2 4 [] ?h2 = Some (Inl ?e2, ?env2, ?h2)"
    by simp
  from first second show ?thesis by (rule conjI)
qed

section \<open>The claims about lists\<close>

text \<open>
  C1. \<open>MERGE src dst\<close>, with \<open>src\<close> bound to a value that denotes \<open>x\<close> and \<open>dst\<close> bound to
  a list, goes to the next line and rebinds \<open>dst\<close> to a new node at an address \<open>a\<close> that
  was not allocated before. The node's value denotes \<open>x\<close> and is built from nodes that
  were not allocated before either (a deep copy); the node's \<open>next\<close> pointer is the old
  head pointer of \<open>dst\<close> (the old chain is shared, not copied), and no cell of the old heap
  is changed. So if \<open>dst\<close> denoted the list \<open>ys\<close>, it now denotes \<open>x # ys\<close>.

  An instruction that returns on a well-formed state (a sorted table whose values all
  denote something, \<open>state_repr\<close>) changes no cell of the heap and no
  binding other than the one it assigns: a value bound to another identifier denotes
  afterwards what it denoted before. In particular a later \<open>ASSIGN\<close> to \<open>a\<close> leaves every
  element already merged into \<open>l\<close> as it is.

  The program \<open>LIST l / INTEGER a / ASSIGN a 1 / MERGE a l / ASSIGN a 2 / MERGE a l / HLT\<close>
  ends with \<open>a = 2\<close> and \<open>l = [2, 1]\<close>; in its final heap the node of the second \<open>MERGE\<close>
  (address 1) points to the node of the first (address 0).
\<close>

theorem merge_prepends_copy:
  "(lookup env src = Some sv \<and> vrepr lo h sv x \<and> lookup env dst = Some dv \<and> type dv = VT_LIST \<longrightarrow>
      (\<exists>a h'. execute (Instr_MERGE l src dst) env pc prog h
                 = Some (Inr (pc + 1), Env_set env dst (make_list (Some a)), h')
         \<and> prefix h h' \<and> length h \<le> a \<and> a < length h'
         \<and> node_next (h' ! a) = list dv
         \<and> vrepr (length h) h' (node_v (h' ! a)) x
         \<and> (\<forall>ys. lrepr 0 h (list dv) ys \<longrightarrow> vrepr 0 h' (make_list (Some a)) (AList (x # ys)))))
   \<and> (state_repr env1 h1 vals \<and> execute ins env1 pc1 prog1 h1 = Some (r, env2, h2) \<and> assigned ins \<noteq> Some k
        \<and> lookup env1 k = Some v \<and> vrepr 0 h1 v y \<longrightarrow>
      prefix h1 h2 \<and> lookup env2 k = Some v \<and> vrepr 0 h2 v y)
   \<and> run_program
        [Instr_LIST 1 ''l'', Instr_INTEGER 2 ''a'', Instr_ASSIGN 3 ''a'' 1, Instr_MERGE 4 ''a'' ''l'',
         Instr_ASSIGN 5 ''a'' 2, Instr_MERGE 6 ''a'' ''l'', Instr_HLT 7] \<lparr>table = []\<rparr> []
      = Some (None, \<lparr>cout = ''a = 2'' @ newline @ ''l = [2, 1]'' @ newline, cerr = []\<rparr>,
              \<lparr>table = [(''a'', make_int 2), (''l'', make_list (Some 1))]\<rparr>,
              [\<lparr>node_v = make_int 1, node_next = None\<rparr>, \<lparr>node_v = make_int 2, node_next = Some 0\<rparr>])"
  (is "?A \<and> ?B \<and> ?C")
proof -
  have a: ?A
  proof
    assume A: "lookup env src = Some sv \<and> vrepr lo h sv x \<and> lookup env dst = Some dv \<and> type dv = VT_LIST"
    then have s: "lookup env src = Some sv" and x: "vrepr lo h sv x"
      and d: "lookup env dst = Some dv" and ty: "type dv = VT_LIST" by simp_all
    from exec_MERGE [OF s x d, of l pc prog] ty obtain vfrom h1 where
      p: "prefix h h1" and v: "vrepr (length h) h1 vfrom x"
      and ex: "execute (Instr_MERGE l src dst) env pc prog h =
                 Some (Inr (pc + 1), Env_set env dst (make_list (Some (length h1))),
                       h1 @ [\<lparr>node_v = vfrom, node_next = list dv\<rparr>])"
      by auto
    let ?a = "length h1"
    let ?h' = "h1 @ [\<lparr>node_v = vfrom, node_next = list dv\<rparr>]"
    have p1: "prefix h1 ?h'" by simp
    have p': "prefix h ?h'" using p by (auto simp: prefix_def)
    have v': "vrepr (length h) ?h' vfrom x" using v p1 by (rule repr_prefix)
    have "vrepr 0 ?h' (make_list (Some ?a)) (AList (x # ys))" if "lrepr 0 h (list dv) ys" for ys
    proof -
      have "vrepr 0 ?h' vfrom x" using v' by (rule repr_lo_mono) simp
      moreover have "lrepr 0 ?h' (list dv) ys" using that p' by (rule repr_prefix)
      ultimately show ?thesis by (simp add: make_list_def)
    qed
    then show "\<exists>a h'. execute (Instr_MERGE l src dst) env pc prog h
                   = Some (Inr (pc + 1), Env_set env dst (make_list (Some a)), h')
           \<and> prefix h h' \<and> length h \<le> a \<and> a < length h'
           \<and> node_next (h' ! a) = list dv
           \<and> vrepr (length h) h' (node_v (h' ! a)) x
           \<and> (\<forall>ys. lrepr 0 h (list dv) ys \<longrightarrow> vrepr 0 h' (make_list (Some a)) (AList (x # ys)))"
      using ex p' v' prefix_length [OF p]
      by (intro exI [of _ ?a] exI [of _ ?h']) simp
  qed
  have b: ?B
  proof
    assume B: "state_repr env1 h1 vals \<and> execute ins env1 pc1 prog1 h1 = Some (r, env2, h2) \<and> assigned ins \<noteq> Some k
          \<and> lookup env1 k = Some v \<and> vrepr 0 h1 v y"
    then have ex: "execute ins env1 pc1 prog1 h1 = Some (r, env2, h2)" by simp
    from B have "state_ok env1 h1" by (auto intro: state_repr_ok)
    from execute_ok [OF this, of ins pc1 prog1] ex have p: "prefix h1 h2" by auto
    moreover have "lookup env2 k = Some v" using execute_other [OF ex] B by simp
    moreover have "vrepr 0 h2 v y" using B p by (auto intro: repr_prefix)
    ultimately show "prefix h1 h2 \<and> lookup env2 k = Some v \<and> vrepr 0 h2 v y" by simp
  qed
  have c: ?C by code_simp
  from a b c show ?thesis by (intro conjI)
qed

text \<open>
  The state after \<open>LIST l / INTEGER a / ASSIGN a 1\<close>, then \<open>MERGE a l\<close>: \<open>l\<close> is bound to a
  node at address 0 that denotes \<open>[1]\<close>; and the following \<open>ASSIGN a 2\<close> leaves \<open>l\<close> with
  the denotation \<open>[1]\<close>.
\<close>

theorem merge_prepends_copy_witness:
  "(\<exists>a h'. execute (Instr_MERGE 4 ''a'' ''l'') \<lparr>table = [(''a'', make_int 1), (''l'', make_list None)]\<rparr> 4 [] []
        = Some (Inr 5, Env_set \<lparr>table = [(''a'', make_int 1), (''l'', make_list None)]\<rparr> ''l''
                  (make_list (Some a)), h')
      \<and> vrepr 0 h' (make_list (Some a)) (AList [AInt 1]))
   \<and> (\<exists>env2 h2. execute (Instr_ASSIGN 5 ''a'' 2)
          \<lparr>table = [(''a'', make_int 1), (''l'', make_list (Some 0))]\<rparr> 5 []
          [\<lparr>node_v = make_int 1, node_next = None\<rparr>] = Some (Inr 6, env2, h2)
      \<and> lookup env2 ''l'' = Some (make_list (Some 0))
      \<and> vrepr 0 h2 (make_list (Some 0)) (AList [AInt 1]))"
proof -
  let ?env = "\<lparr>table = [(''a'', make_int 1), (''l'', make_list None)]\<rparr>"
  have pre: "lookup ?env ''a'' = Some (make_int 1) \<and> vrepr 0 [] (make_int 1) (AInt 1)
      \<and> lookup ?env ''l'' = Some (make_list None) \<and> type (make_list None) = VT_LIST"
    by (simp add: lookup_def make_int_def make_list_def)
  have nil: "lrepr 0 [] (list (make_list None)) []" by (simp add: make_list_def)
  from merge_prepends_copy [THEN conjunct1, rule_format, OF pre, of 4 4 "[]"]
  obtain a h' where
    e: "execute (Instr_MERGE 4 ''a'' ''l'') ?env 4 [] []
        = Some (Inr (4 + 1), Env_set ?env ''l'' (make_list (Some a)), h')"
    and al: "\<forall>ys. lrepr 0 [] (list (make_list None)) ys
          \<longrightarrow> vrepr 0 h' (make_list (Some a)) (AList (AInt 1 # ys))"
    by blast
  from al nil have "vrepr 0 h' (make_list (Some a)) (AList [AInt 1])" by blast
  with e have first: "\<exists>a h'. execute (Instr_MERGE 4 ''a'' ''l'') ?env 4 [] []
        = Some (Inr 5, Env_set ?env ''l'' (make_list (Some a)), h')
      \<and> vrepr 0 h' (make_list (Some a)) (AList [AInt 1])"
    by (auto simp del: execute.simps vrepr.simps)
  let ?env1 = "\<lparr>table = [(''a'', make_int 1), (''l'', make_list (Some 0))]\<rparr>"
  let ?h1 = "[\<lparr>node_v = make_int 1, node_next = None\<rparr>]"
  have ex: "execute (Instr_ASSIGN 5 ''a'' 2) ?env1 5 [] ?h1
      = Some (Inr 6, \<lparr>table = [(''a'', make_int 2), (''l'', make_list (Some 0))]\<rparr>, ?h1)"
    by code_simp
  have ok: "state_repr ?env1 ?h1 [AInt 1, AList [AInt 1]]"
    by (simp add: state_repr_def make_int_def make_list_def less_char_def)
  have "assigned (Instr_ASSIGN 5 ''a'' 2) \<noteq> Some ''l''"
    "lookup ?env1 ''l'' = Some (make_list (Some 0))"
    "vrepr 0 ?h1 (make_list (Some 0)) (AList [AInt 1])"
    by (simp_all add: lookup_def make_int_def make_list_def)
  with merge_prepends_copy [THEN conjunct2, THEN conjunct1, rule_format,
      of ?env1 ?h1 "[AInt 1, AList [AInt 1]]" "Instr_ASSIGN 5 ''a'' 2" 5 "[]" "Inr 6"
         "\<lparr>table = [(''a'', make_int 2), (''l'', make_list (Some 0))]\<rparr>" ?h1
         "''l''" "make_list (Some 0)" "AList [AInt 1]"]
    ok ex
  have "lookup \<lparr>table = [(''a'', make_int 2), (''l'', make_list (Some 0))]\<rparr> ''l'' = Some (make_list (Some 0))
      \<and> vrepr 0 ?h1 (make_list (Some 0)) (AList [AInt 1])"
    by blast
  with ex have second: "\<exists>env2 h2. execute (Instr_ASSIGN 5 ''a'' 2) ?env1 5 [] ?h1 = Some (Inr 6, env2, h2)
      \<and> lookup env2 ''l'' = Some (make_list (Some 0))
      \<and> vrepr 0 h2 (make_list (Some 0)) (AList [AInt 1])"
    by blast
  from first second show ?thesis by blast
qed

text \<open>
  C6. With \<open>src\<close> bound to a list: \<open>TAIL src dst\<close> never fails. On the empty list it binds
  \<open>dst\<close> to the empty list and leaves the heap as it is; on a list that denotes \<open>x # xs\<close>
  it binds \<open>dst\<close> to a chain of nodes not allocated before that denotes \<open>xs\<close>. \<open>HEAD src
  ident\<close> fails with \<open>EmptyList\<close> on the empty list, leaving the environment as it is; on
  a list that denotes \<open>x # xs\<close> it does not fail and binds \<open>ident\<close>, declared before or not,
  to a value built from nodes not allocated before that denotes \<open>x\<close>. In both
  instructions the heap only grows.
\<close>

theorem tail_and_head:
  "(lookup env src = Some sv \<and> type sv = VT_LIST \<and> lrepr lo h (list sv) [] \<longrightarrow>
      execute (Instr_TAIL l src dst) env pc prog h
        = Some (Inr (pc + 1), Env_set env dst (make_list None), h)
      \<and> vrepr 0 h (make_list None) (AList [])
      \<and> execute (Instr_HEAD l src ident) env pc prog h
        = Some (Inl (RuntimeError EmptyList (at_line l (''HEAD on empty list: '' @ src))), env, h))
   \<and> (lookup env src = Some sv \<and> type sv = VT_LIST \<and> lrepr lo h (list sv) (x # xs) \<longrightarrow>
      (\<exists>q h'. execute (Instr_TAIL l src dst) env pc prog h
                 = Some (Inr (pc + 1), Env_set env dst (make_list q), h')
         \<and> prefix h h' \<and> vrepr (length h) h' (make_list q) (AList xs))
      \<and> (\<exists>hv h'. execute (Instr_HEAD l src ident) env pc prog h
                 = Some (Inr (pc + 1), Env_set env ident hv, h')
         \<and> prefix h h' \<and> vrepr (length h) h' hv x
         \<and> lookup (Env_set env ident hv) ident = Some hv))"
proof (intro conjI impI)
  assume A: "lookup env src = Some sv \<and> type sv = VT_LIST \<and> lrepr lo h (list sv) []"
  then have s: "lookup env src = Some sv" and ty: "type sv = VT_LIST" and e: "list sv = None"
    by simp_all
  show "execute (Instr_TAIL l src dst) env pc prog h
        = Some (Inr (pc + 1), Env_set env dst (make_list None), h)"
    using s ty e by (rule exec_TAIL_empty)
  show "vrepr 0 h (make_list None) (AList [])" by (simp add: make_list_def)
  show "execute (Instr_HEAD l src ident) env pc prog h
        = Some (Inl (RuntimeError EmptyList (at_line l (''HEAD on empty list: '' @ src))), env, h)"
    using s ty e by (rule exec_HEAD_empty)
next
  assume A: "lookup env src = Some sv \<and> type sv = VT_LIST \<and> lrepr lo h (list sv) (x # xs)"
  then have s: "lookup env src = Some sv" and ty: "type sv = VT_LIST"
    and r: "lrepr lo h (list sv) (x # xs)" by simp_all
  from exec_TAIL [OF s ty r, of l dst pc prog]
  show "\<exists>q h'. execute (Instr_TAIL l src dst) env pc prog h
                 = Some (Inr (pc + 1), Env_set env dst (make_list q), h')
         \<and> prefix h h' \<and> vrepr (length h) h' (make_list q) (AList xs)"
    by (auto simp: make_list_def simp del: execute.simps)
next
  assume A: "lookup env src = Some sv \<and> type sv = VT_LIST \<and> lrepr lo h (list sv) (x # xs)"
  then have s: "lookup env src = Some sv" and ty: "type sv = VT_LIST"
    and r: "lrepr lo h (list sv) (x # xs)" by simp_all
  from exec_HEAD [OF s ty r, of l ident pc prog]
  show "\<exists>hv h'. execute (Instr_HEAD l src ident) env pc prog h
                 = Some (Inr (pc + 1), Env_set env ident hv, h')
         \<and> prefix h h' \<and> vrepr (length h) h' hv x
         \<and> lookup (Env_set env ident hv) ident = Some hv"
    by (auto simp: lookup_set simp del: execute.simps)
qed

text \<open>
  On \<open>l = [2, 1]\<close> as the program of C1 leaves it, \<open>TAIL l t\<close> binds \<open>t\<close> to a new chain
  that denotes \<open>[1]\<close> and \<open>HEAD l h\<close> binds \<open>h\<close> to a value that denotes \<open>2\<close>.
\<close>

theorem tail_and_head_witness:
  "(\<exists>q h'. execute (Instr_TAIL 7 ''l'' ''t'') \<lparr>table = [(''l'', make_list (Some 1))]\<rparr> 7 []
        [\<lparr>node_v = make_int 1, node_next = None\<rparr>, \<lparr>node_v = make_int 2, node_next = Some 0\<rparr>]
        = Some (Inr 8, Env_set \<lparr>table = [(''l'', make_list (Some 1))]\<rparr> ''t'' (make_list q), h')
      \<and> vrepr 2 h' (make_list q) (AList [AInt 1]))
   \<and> (\<exists>hv h'. execute (Instr_HEAD 7 ''l'' ''h'') \<lparr>table = [(''l'', make_list (Some 1))]\<rparr> 7 []
        [\<lparr>node_v = make_int 1, node_next = None\<rparr>, \<lparr>node_v = make_int 2, node_next = Some 0\<rparr>]
        = Some (Inr 8, Env_set \<lparr>table = [(''l'', make_list (Some 1))]\<rparr> ''h'' hv, h')
      \<and> vrepr 2 h' hv (AInt 2))"
proof -
  let ?env = "\<lparr>table = [(''l'', make_list (Some 1))]\<rparr>"
  let ?h = "[\<lparr>node_v = make_int 1, node_next = None\<rparr>, \<lparr>node_v = make_int 2, node_next = Some 0\<rparr>]"
  have pre: "lookup ?env ''l'' = Some (make_list (Some 1)) \<and> type (make_list (Some 1)) = VT_LIST
      \<and> lrepr 0 ?h (list (make_list (Some 1))) [AInt 2, AInt 1]"
    by (simp add: lookup_def make_int_def make_list_def)
  have len: "length ?h = 2" by simp
  from tail_and_head [THEN conjunct2, rule_format, OF pre, of 7 "''t''" 7 "[]" "''h''"]
  obtain q h' hv h'' where
    "execute (Instr_TAIL 7 ''l'' ''t'') ?env 7 [] ?h
        = Some (Inr (7 + 1), Env_set ?env ''t'' (make_list q), h')"
    "vrepr (length ?h) h' (make_list q) (AList [AInt 1])"
    "execute (Instr_HEAD 7 ''l'' ''h'') ?env 7 [] ?h
        = Some (Inr (7 + 1), Env_set ?env ''h'' hv, h'')"
    "vrepr (length ?h) h'' hv (AInt 2)"
    by blast
  then show ?thesis
    unfolding len by (auto simp del: execute.simps vrepr.simps)
qed

section \<open>The claims about runs\<close>

text \<open>
  C9. No instruction removes a binding: whatever \<open>execute\<close> returns or throws, every
  identifier declared before is declared after. Hence the same holds between any two
  configurations of a run (\<open>run_n\<close>), between the start and the end of the driver loop
  (\<open>run_loop\<close>), and for \<open>run_program\<close> as a whole.
\<close>

theorem bindings_never_removed:
  "(execute ins env pc prog h = Some (r, env', h') \<longrightarrow> declared env \<subseteq> declared env')
   \<and> (run_n k prog1 (pc1, env1, h1) = Some (pc2, env2, h2) \<longrightarrow> declared env1 \<subseteq> declared env2)
   \<and> (run_loop prog3 pc3 env3 h3 = Some (r3, env4, h4) \<longrightarrow> declared env3 \<subseteq> declared env4)
   \<and> (run_program prog5 env5 h5 = Some (u, io, env6, h6) \<longrightarrow> declared env5 \<subseteq> declared env6)"
proof -
  have "declared env5 \<subseteq> declared env6" if "run_program prog5 env5 h5 = Some (u, io, env6, h6)"
  proof -
    from that obtain e where "run_loop prog5 1 env5 h5 = Some (e, env6, h6)"
      by (auto simp: run_program_def split: option.splits prod.splits)
    from run_loop_declared [OF this] show ?thesis by simp
  qed
  then show ?thesis
    using execute_declared [of ins env pc prog h r env' h']
      run_n_declared [of k prog1 pc1 env1 h1 pc2 env2 h2]
      run_loop_declared [of prog3 pc3 env3 h3 "(r3, env4, h4)"]
    by simp
qed

theorem bindings_never_removed_witness:
  "\<exists>pc' env' h'. run_n 3 [Instr_LIST 1 ''z'', Instr_COPY 2 ''z'' ''a'', Instr_ASSIGN 3 ''q'' 4]
        (1, \<lparr>table = [(''q'', make_int 7)]\<rparr>, []) = Some (pc', env', h')
     \<and> declared \<lparr>table = [(''q'', make_int 7)]\<rparr> \<subseteq> declared env'
     \<and> ''q'' \<in> declared env'"
proof -
  have r: "run_n 3 [Instr_LIST 1 ''z'', Instr_COPY 2 ''z'' ''a'', Instr_ASSIGN 3 ''q'' 4]
        (1, \<lparr>table = [(''q'', make_int 7)]\<rparr>, [])
      = Some (4, \<lparr>table = [(''a'', make_list None), (''q'', make_int 4), (''z'', make_list None)]\<rparr>, [])"
    by code_simp
  have "''q'' \<in> declared \<lparr>table = [(''q'', make_int 7)]\<rparr>" by (simp add: declared_def)
  with bindings_never_removed [THEN conjunct2, THEN conjunct1, rule_format, OF r] r
  show ?thesis by blast
qed

section \<open>The claims about the report, the exit code and the parser\<close>

text \<open>
  C5. When the driver loop, started on a well-formed state (\<open>state_repr\<close>; the empty
  environment and heap in \<open>main\<close>),
  ends without an exception, \<open>run_program\<close> writes nothing to the error stream and
  writes to the output stream one line \<open>name = rendering\<close> per entry of the table, in
  the order of the table, which is the strictly ascending lexicographic order of the
  names; the rendering is \<open>render\<close> of the value the entry denotes: the decimal text of
  an integer, \<open>[]\<close> for the empty list, and the renderings of the elements in brackets,
  head first, separated by a comma and a space, for any other list.
\<close>

theorem final_report:
  assumes "state_repr env h vals" and "run_loop prog 1 env h = Some (None, env', h')"
  shows "\<exists>binds. map fst binds = map fst (table env')
           \<and> sorted_wrt (<) (map fst binds)
           \<and> list_all2 (\<lambda>kv kx. vrepr 0 h' (snd kv) (snd kx)) (table env') binds
           \<and> run_program prog env h =
               Some (None, \<lparr>cout = concat (map (\<lambda>(k, x). k @ '' = '' @ render x @ newline) binds),
                             cerr = []\<rparr>, env', h')
           \<and> render (AInt i) = to_string (sint i)
           \<and> render (AList []) = ''[]''
           \<and> render (AList (y # ys)) = ''['' @ render y @ concat (map (\<lambda>z. '', '' @ render z) ys) @ '']''"
proof -
  from run_loop_ok [OF assms(2)] state_repr_ok [OF assms(1)] have ok: "state_ok env' h'" by simp
  from report_of_state [OF ok] obtain binds where
    b: "map fst binds = map fst (table env')" "sorted_wrt (<) (map fst binds)"
       "list_all2 (\<lambda>kv kx. vrepr 0 h' (snd kv) (snd kx)) (table env') binds"
       "print_names (sort (map fst (table env'))) env' h' []
          = Some (None, concat (map (\<lambda>(k, x). k @ '' = '' @ render x @ newline) binds))"
    by blast
  have "run_program prog env h =
      Some (None, \<lparr>cout = concat (map (\<lambda>(k, x). k @ '' = '' @ render x @ newline) binds),
                    cerr = []\<rparr>, env', h')"
    using assms(2) b(4) by (simp add: run_program_def)
  moreover have "render (AList (y # ys)) = ''['' @ render y @ concat (map (\<lambda>z. '', '' @ render z) ys) @ '']''"
    by (simp add: join_Cons comp_def)
  ultimately show ?thesis using b(1-3) by (intro exI [of _ binds]) simp
qed

text \<open>
  The program \<open>INTEGER x / ASSIGN x 5 / INTEGER y / ASSIGN y 3 / ADD x y / HLT\<close> reports
  \<open>x = 8\<close> and then \<open>y = 3\<close>.
\<close>

theorem final_report_witness:
  "run_program [Instr_INTEGER 1 ''x'', Instr_ASSIGN 2 ''x'' 5, Instr_INTEGER 3 ''y'',
                Instr_ASSIGN 4 ''y'' 3, Instr_ADD 5 ''x'' ''y'', Instr_HLT 6] \<lparr>table = []\<rparr> []
     = Some (None, \<lparr>cout = ''x = 8'' @ newline @ ''y = 3'' @ newline, cerr = []\<rparr>,
             \<lparr>table = [(''x'', make_int 8), (''y'', make_int 3)]\<rparr>, [])"
proof -
  let ?prog = "[Instr_INTEGER 1 ''x'', Instr_ASSIGN 2 ''x'' 5, Instr_INTEGER 3 ''y'',
                Instr_ASSIGN 4 ''y'' 3, Instr_ADD 5 ''x'' ''y'', Instr_HLT 6]"
  let ?env = "\<lparr>table = [(''x'', make_int 8), (''y'', make_int 3)]\<rparr>"
  have run: "run_loop ?prog 1 \<lparr>table = []\<rparr> [] = Some (None, ?env, [])"
    by code_simp
  have "state_repr \<lparr>table = []\<rparr> [] []" by (simp add: state_repr_def)
  from final_report [OF this run] obtain binds where
    k: "map fst binds = map fst (table ?env)"
    and l: "list_all2 (\<lambda>kv kx. vrepr 0 [] (snd kv) (snd kx)) (table ?env) binds"
    and out: "run_program ?prog \<lparr>table = []\<rparr> [] =
               Some (None, \<lparr>cout = concat (map (\<lambda>(k, x). k @ '' = '' @ render x @ newline) binds),
                             cerr = []\<rparr>, ?env, [])"
    by blast
  from l obtain b1 b2 where bs: "binds = [b1, b2]"
    and v1: "vrepr 0 [] (make_int 8) (snd b1)" and v2: "vrepr 0 [] (make_int 3) (snd b2)"
    by (auto simp: list_all2_Cons1)
  from v1 have s1: "snd b1 = AInt 8" by (cases "snd b1") (auto simp: make_int_def)
  from v2 have s2: "snd b2 = AInt 3" by (cases "snd b2") (auto simp: make_int_def)
  from k bs have "fst b1 = ''x''" "fst b2 = ''y''" by simp_all
  with s1 s2 bs have binds: "binds = [(''x'', AInt 8), (''y'', AInt 3)]"
    by (simp add: prod_eq_iff)
  have "concat (map (\<lambda>(k, x). k @ '' = '' @ render x @ newline) [(''x'', AInt 8), (''y'', AInt 3)])
      = ''x = 8'' @ newline @ ''y = 3'' @ newline"
    by code_simp
  with out binds show ?thesis by simp
qed

text \<open>
  C4. With an argument count other than two, \<open>main\<close> writes the usage line to the error
  stream and exits with code 1; when the loader throws, it writes one line with the
  loader's message and exits with code 1; in both cases \<open>run_program\<close> is not called and
  nothing is written to the output stream. When the program is loaded and the run from
  the empty environment reaches line \<open>pc\<close> where the instruction throws \<open>e\<close>, the loop
  stops there: the environment is the one the failing instruction found, the output
  stream stays empty (no report), the error stream holds the single line
  \<open>Runtime error: Line pc: reason\<close>, and the exit code is 0.
\<close>

theorem exit_codes:
  "(length argv \<noteq> 2 \<longrightarrow>
      main argv fs = Some (Exit 1, \<lparr>cout = [], cerr = ''Usage: ppl <program-file>'' @ newline\<rparr>))
   \<and> (length argv = 2 \<and> load_program fs (argv ! 1) = Inl le \<longrightarrow>
      main argv fs = Some (Exit 1, \<lparr>cout = [], cerr = ''Error loading program: '' @ what le @ newline\<rparr>))
   \<and> (length argv = 2 \<and> load_program fs (argv ! 1) = Inr prog
        \<and> run_n k prog (1, \<lparr>table = []\<rparr>, []) = Some (pc, env, h)
        \<and> 1 \<le> pc \<and> pc \<le> int (length prog)
        \<and> execute (prog ! nat (pc - 1)) env pc prog h = Some (Inl e, env', h') \<longrightarrow>
      main argv fs = Some (Exit 0, \<lparr>cout = [], cerr = ''Runtime error: '' @ what e @ newline\<rparr>)
      \<and> run_program prog \<lparr>table = []\<rparr> []
          = Some (None, \<lparr>cout = [], cerr = ''Runtime error: '' @ what e @ newline\<rparr>, env, h')
      \<and> (\<exists>reason. what e = ''Line '' @ to_string pc @ '': '' @ reason)
      \<and> CHR 0x0A \<notin> set (what e))"
  (is "?A \<and> ?B \<and> ?C")
proof -
  have a: ?A by (simp add: main_def)
  have b: ?B by (simp add: main_def)
  have c: ?C
  proof
    assume H: "length argv = 2 \<and> load_program fs (argv ! 1) = Inr prog
        \<and> run_n k prog (1, \<lparr>table = []\<rparr>, []) = Some (pc, env, h)
        \<and> 1 \<le> pc \<and> pc \<le> int (length prog)
        \<and> execute (prog ! nat (pc - 1)) env pc prog h = Some (Inl e, env', h')"
    then have ld: "load_program fs (argv ! 1) = Inr prog"
      and rn: "run_n k prog (1, \<lparr>table = []\<rparr>, []) = Some (pc, env, h)"
      and p1: "1 \<le> pc" and p2: "pc \<le> int (length prog)"
      and ex: "execute (prog ! nat (pc - 1)) env pc prog h = Some (Inl e, env', h')"
      by simp_all
    have i: "nat (pc - 1) < length prog" using p1 p2 by simp
    from load_program_loaded [OF ld] i
    have ln: "lineNo (prog ! nat (pc - 1)) = pc"
      and ops: "\<forall>s\<in>set (operands (prog ! nat (pc - 1))). CHR 0x0A \<notin> set s"
      using p1 by (auto simp: loaded_def)
    from execute_error_what [OF ex ops] ln
    have w: "\<exists>reason. what e = at_line pc reason" "CHR 0x0A \<notin> set (what e)" by simp_all
    have env: "env' = env" using ex by (rule execute_error_env)
    from run_loop_fails [OF rn p1 p2 ex]
    have rl: "run_loop prog 1 \<lparr>table = []\<rparr> [] = Some (Some e, env, h')" using env by simp
    then have rp: "run_program prog \<lparr>table = []\<rparr> []
          = Some (None, \<lparr>cout = [], cerr = ''Runtime error: '' @ what e @ newline\<rparr>, env, h')"
      by (simp add: run_program_def)
    then have "main argv fs = Some (Exit 0, \<lparr>cout = [], cerr = ''Runtime error: '' @ what e @ newline\<rparr>)"
      using H by (simp add: main_def)
    then show "main argv fs = Some (Exit 0, \<lparr>cout = [], cerr = ''Runtime error: '' @ what e @ newline\<rparr>)
      \<and> run_program prog \<lparr>table = []\<rparr> []
          = Some (None, \<lparr>cout = [], cerr = ''Runtime error: '' @ what e @ newline\<rparr>, env, h')
      \<and> (\<exists>reason. what e = ''Line '' @ to_string pc @ '': '' @ reason)
      \<and> CHR 0x0A \<notin> set (what e)"
      using rp w by (simp add: at_line_def)
  qed
  from a b c show ?thesis by (intro conjI)
qed

text \<open>
  The program \<open>LIST l / INTEGER h / HEAD l h / HLT\<close> fails at line 3: nothing on the
  output stream, one line on the error stream, exit code 0. A line \<open>FOO\<close> does not
  parse: exit code 1.
\<close>

theorem exit_codes_witness:
  "main [''ppl'', ''prog.ppl'']
      (\<lambda>f. Some (''LIST l'' @ newline @ ''INTEGER h'' @ newline @ ''HEAD l h'' @ newline @ ''HLT'' @ newline))
     = Some (Exit 0, \<lparr>cout = [], cerr = ''Runtime error: Line 3: HEAD on empty list: l'' @ newline\<rparr>)
   \<and> main [''ppl'', ''prog.ppl''] (\<lambda>f. Some ''FOO'')
     = Some (Exit 1, \<lparr>cout = [], cerr = ''Error loading program: Line 1: Unknown operation: FOO'' @ newline\<rparr>)
   \<and> main [''ppl''] (\<lambda>f. None)
     = Some (Exit 1, \<lparr>cout = [], cerr = ''Usage: ppl <program-file>'' @ newline\<rparr>)"
proof -
  let ?fs = "\<lambda>f :: string. Some (''LIST l'' @ newline @ ''INTEGER h'' @ newline @ ''HEAD l h'' @ newline @ ''HLT'' @ newline)"
  let ?prog = "[Instr_LIST 1 ''l'', Instr_INTEGER 2 ''h'', Instr_HEAD 3 ''l'' ''h'', Instr_HLT 4]"
  let ?env = "\<lparr>table = [(''h'', make_int 0), (''l'', make_list None)]\<rparr>"
  let ?e = "RuntimeError EmptyList ''Line 3: HEAD on empty list: l''"
  have ld: "load_program ?fs ([''ppl'', ''prog.ppl''] ! 1) = Inr ?prog" by code_simp
  have rn: "run_n 2 ?prog (1, \<lparr>table = []\<rparr>, []) = Some (3, ?env, [])" by code_simp
  have ex: "execute (?prog ! nat (3 - 1)) ?env 3 ?prog [] = Some (Inl ?e, ?env, [])" by code_simp
  have "length [''ppl'', ''prog.ppl''] = 2 \<and> load_program ?fs ([''ppl'', ''prog.ppl''] ! 1) = Inr ?prog
        \<and> run_n 2 ?prog (1, \<lparr>table = []\<rparr>, []) = Some (3, ?env, [])
        \<and> (1::int) \<le> 3 \<and> 3 \<le> int (length ?prog)
        \<and> execute (?prog ! nat (3 - 1)) ?env 3 ?prog [] = Some (Inl ?e, ?env, [])"
    using ld rn ex by simp
  from exit_codes [THEN conjunct2, THEN conjunct2, rule_format, OF this]
  have first: "main [''ppl'', ''prog.ppl''] ?fs
      = Some (Exit 0, \<lparr>cout = [], cerr = ''Runtime error: '' @ what ?e @ newline\<rparr>)"
    by blast
  have ld2: "load_program (\<lambda>f. Some ''FOO'') ([''ppl'', ''prog.ppl''] ! 1)
      = Inl (RuntimeError ParseError ''Line 1: Unknown operation: FOO'')" by code_simp
  then have "length [''ppl'', ''prog.ppl''] = 2 \<and> load_program (\<lambda>f. Some ''FOO'') ([''ppl'', ''prog.ppl''] ! 1)
      = Inl (RuntimeError ParseError ''Line 1: Unknown operation: FOO'')" by simp
  from exit_codes [THEN conjunct2, THEN conjunct1, rule_format, OF this]
  have second: "main [''ppl'', ''prog.ppl''] (\<lambda>f. Some ''FOO'')
      = Some (Exit 1, \<lparr>cout = [], cerr = ''Error loading program: ''
            @ what (RuntimeError ParseError ''Line 1: Unknown operation: FOO'') @ newline\<rparr>)" .
  have "length [''ppl''] \<noteq> 2" by simp
  from exit_codes [THEN conjunct1, rule_format, OF this]
  have third: "main [''ppl''] (\<lambda>f. None)
      = Some (Exit 1, \<lparr>cout = [], cerr = ''Usage: ppl <program-file>'' @ newline\<rparr>)" .
  from first second third show ?thesis by simp
qed

text \<open>
  C3 does not hold of the code. \<open>parse_line\<close> calls \<open>is_identifier\<close> for \<open>INTEGER\<close> and
  \<open>LIST\<close> only: \<open>INTEGER 1x\<close> is rejected with a message tagged with the line, but
  \<open>ASSIGN 1x 5\<close> and \<open>CHS 9\<close> parse, the whole file loads, and the run declares an
  identifier \<open>1x\<close> and reports it.
\<close>

theorem identifier_check_only_in_declarations:
  "\<not> is_identifier ''1x''
   \<and> parse_line ''INTEGER 1x'' 1 = Inl (RuntimeError ParseError ''Line 1: invalid identifier: 1x'')
   \<and> parse_line ''ASSIGN 1x 5'' 1 = Inr (Some (Instr_ASSIGN 1 ''1x'' 5))
   \<and> parse_line ''CHS 9'' 1 = Inr (Some (Instr_CHS 1 ''9''))
   \<and> load_program (\<lambda>f. Some ''ASSIGN 1x 5'') ''prog.ppl'' = Inr [Instr_ASSIGN 1 ''1x'' 5]
   \<and> main [''ppl'', ''prog.ppl''] (\<lambda>f. Some ''ASSIGN 1x 5'')
       = Some (Exit 0, \<lparr>cout = ''1x = 5'' @ newline, cerr = []\<rparr>)"
  by code_simp

theorem identifier_check_only_in_declarations_witness:
  "\<exists>ins. parse_line ''ASSIGN 1x 5'' 1 = Inr (Some ins) \<and> \<not> list_all is_identifier (operands ins)"
proof -
  have "operands (Instr_ASSIGN 1 ''1x'' 5) = [''1x'']" by simp
  with identifier_check_only_in_declarations show ?thesis by simp
qed

end
